theory Spec2Isabelle
  imports Complex_Main
begin

section \<open>Rejection sampler: shallow embedding of \<^verbatim>\<open>sampler.py\<close>\<close>

subsection \<open>Floating-point values\<close>

text \<open>
  The values that \<^verbatim>\<open>np.exp\<close>, \<^verbatim>\<open>np.log\<close>, \<^verbatim>\<open>np.random.uniform\<close> and the two
  log-density callables work on are IEEE doubles: a finite double is the real number
  it stands for, next to the three special values (\<^verbatim>\<open>np.log(0.0)\<close> is \<^verbatim>\<open>-inf\<close>, and
  every ordered comparison with \<^verbatim>\<open>nan\<close> is false). The two zeros are not told apart:
  they compare equal, and \<^verbatim>\<open>np.log\<close> is \<^verbatim>\<open>-inf\<close> at both.
\<close>

datatype npfloat = Fin real | PInf | NInf | NaN

text \<open>\<^verbatim>\<open>a < b\<close> on doubles.\<close>

fun np_lt :: "npfloat \<Rightarrow> npfloat \<Rightarrow> bool" where
  "np_lt NaN _ = False"
| "np_lt _ NaN = False"
| "np_lt (Fin a) (Fin b) = (a < b)"
| "np_lt (Fin a) PInf = True"
| "np_lt (Fin a) NInf = False"
| "np_lt PInf _ = False"
| "np_lt NInf NInf = False"
| "np_lt NInf _ = True"

text \<open>\<^verbatim>\<open>a >= b\<close> on doubles.\<close>

fun np_ge :: "npfloat \<Rightarrow> npfloat \<Rightarrow> bool" where
  "np_ge NaN _ = False"
| "np_ge _ NaN = False"
| "np_ge (Fin a) (Fin b) = (b \<le> a)"
| "np_ge (Fin a) PInf = False"
| "np_ge (Fin a) NInf = True"
| "np_ge PInf _ = True"
| "np_ge NInf NInf = True"
| "np_ge NInf _ = False"

text \<open>
  Rounding of a real result to a double (binary64, round to nearest, ties to even).
  \<open>round_even\<close> is the nearest integer, the even one of two at equal distance.
  The exponent of \<open>x\<close> is that of its binade, not below \<open>-1022\<close> (below that the
  doubles are subnormal, equally spaced); a double carries 53 significant bits, so two
  neighbouring doubles around \<open>x\<close> are \<open>ulp x\<close> apart. A result that rounds to
  \<open>2 ^ 1024\<close> or beyond in magnitude overflows to an infinity; one of magnitude at
  most half the smallest subnormal rounds to zero.
\<close>

definition round_even :: "real \<Rightarrow> int" where
  "round_even z =
     (if z - real_of_int \<lfloor>z\<rfloor> < 1 / 2 then \<lfloor>z\<rfloor>
      else if 1 / 2 < z - real_of_int \<lfloor>z\<rfloor> then \<lfloor>z\<rfloor> + 1
      else if even \<lfloor>z\<rfloor> then \<lfloor>z\<rfloor> else \<lfloor>z\<rfloor> + 1)"

definition expo :: "real \<Rightarrow> int" where
  "expo x = max \<lfloor>log 2 \<bar>x\<bar>\<rfloor> (- 1022)"

definition ulp :: "real \<Rightarrow> real" where
  "ulp x = 2 powr real_of_int (expo x - 52)"

definition fl :: "real \<Rightarrow> npfloat" where
  "fl x =
     (if x = 0 then Fin 0
      else let y = real_of_int (round_even (x / ulp x)) * ulp x
           in if 2 ^ 1024 \<le> \<bar>y\<bar> then (if 0 < x then PInf else NInf) else Fin y)"

text \<open>
  \<^verbatim>\<open>np.exp\<close>: the exponential, rounded to a double. It overflows to \<^verbatim>\<open>inf\<close> above
  about 709.78 and underflows to subnormals and to zero below about -708.4.
\<close>

fun np_exp :: "npfloat \<Rightarrow> npfloat" where
  "np_exp (Fin a) = fl (exp a)"
| "np_exp PInf = PInf"
| "np_exp NInf = Fin 0"
| "np_exp NaN = NaN"

text \<open>
  \<^verbatim>\<open>np.log\<close>: \<^verbatim>\<open>-inf\<close> at zero, \<^verbatim>\<open>nan\<close> on negative arguments, and the natural
  logarithm rounded to a double elsewhere.
\<close>

fun np_log :: "npfloat \<Rightarrow> npfloat" where
  "np_log (Fin a) = (if a = 0 then NInf else if a < 0 then NaN else fl (ln a))"
| "np_log PInf = PInf"
| "np_log NInf = NaN"
| "np_log NaN = NaN"

text \<open>
  \<^verbatim>\<open>np.random.uniform(0.0, high)\<close> computes \<^verbatim>\<open>0.0 + (high - 0.0) * r\<close> from the
  generator's next unit sample \<open>r\<close>; \<^verbatim>\<open>inf * 0.0\<close> is \<^verbatim>\<open>nan\<close>. Subtracting and
  adding \<^verbatim>\<open>0.0\<close> is exact, so the product is the one operation that rounds.
\<close>

fun np_uniform0 :: "npfloat \<Rightarrow> real \<Rightarrow> npfloat" where
  "np_uniform0 (Fin h) r = fl (0 + (h - 0) * r)"
| "np_uniform0 PInf r = (if r = 0 then NaN else if 0 < r then PInf else NInf)"
| "np_uniform0 NInf r = (if r = 0 then NaN else if 0 < r then NInf else PInf)"
| "np_uniform0 NaN r = NaN"

text \<open>
  \<^verbatim>\<open>MIN = np.log(np.finfo('float64').tiny)\<close>: the smallest positive normal double
  is \<^verbatim>\<open>2 ** -1022\<close>. (\<open>MIN\<close> is taken by HOL's syntax, hence the suffix.)
\<close>

definition tiny :: real where
  "tiny = 1 / 2 ^ 1022"

definition MIN_log :: npfloat where
  "MIN_log = np_log (Fin tiny)"

subsection \<open>Samples, buffers, errors\<close>

text \<open>
  A value returned by the proposal function: a Python float, or a list (tuple) of
  floats, the two cases that \<^verbatim>\<open>len(first)\<close> tells apart.
\<close>

datatype sample_value = Scalar real | Seq "real list"

datatype error = ValueError | IndexError | TypeError

text \<open>
  A NumPy array of shape \<open>(n,)\<close> or \<open>(n, d)\<close>. \<^verbatim>\<open>np.empty\<close> leaves the memory as it
  finds it: a row that has not been written is \<open>None\<close>.
\<close>

datatype buffer = Buf1 "real option list" | Buf2 nat "real list option list"

fun shape :: "buffer \<Rightarrow> nat list" where
  "shape (Buf1 cells) = [length cells]"
| "shape (Buf2 d rows) = [length rows, d]"

fun buf_len :: "buffer \<Rightarrow> nat" where
  "buf_len (Buf1 cells) = length cells"
| "buf_len (Buf2 d rows) = length rows"

text \<open>Row \<open>i\<close> of a buffer, as a list of its entries; \<open>None\<close> when unwritten or out of range.\<close>

fun row :: "buffer \<Rightarrow> nat \<Rightarrow> real list option" where
  "row (Buf1 cells) i = (if i < length cells then map_option (\<lambda>c. [c]) (cells ! i) else None)"
| "row (Buf2 d rows) i = (if i < length rows then rows ! i else None)"

text \<open>\<^verbatim>\<open>len(first)\<close>: raises \<^verbatim>\<open>TypeError\<close> on a float.\<close>

fun py_len :: "sample_value \<Rightarrow> error + nat" where
  "py_len (Scalar c) = Inl TypeError"
| "py_len (Seq xs) = Inr (length xs)"

text \<open>\<^verbatim>\<open>np.empty(n)\<close> and \<^verbatim>\<open>np.empty((n, d))\<close>: a negative dimension is a \<^verbatim>\<open>ValueError\<close>.\<close>

definition np_empty1 :: "int \<Rightarrow> error + buffer" where
  "np_empty1 n = (if n < 0 then Inl ValueError else Inr (Buf1 (replicate (nat n) None)))"

definition np_empty2 :: "int \<Rightarrow> nat \<Rightarrow> error + buffer" where
  "np_empty2 n d = (if n < 0 then Inl ValueError else Inr (Buf2 d (replicate (nat n) None)))"

text \<open>
  \<^verbatim>\<open>a[i] = v\<close> for an index \<open>i \<ge> 0\<close>. Out of range is an \<^verbatim>\<open>IndexError\<close>. A float
  slot of a one-dimensional array takes a float only (a list there is
  \<^verbatim>\<open>ValueError: setting an array element with a sequence\<close>). A row of a
  two-dimensional array takes a list of the row's length, and NumPy broadcasts a
  float or a list of length one over the whole row; any other length is a
  \<^verbatim>\<open>ValueError\<close>. A failed assignment writes nothing.
\<close>

fun setitem :: "buffer \<Rightarrow> nat \<Rightarrow> sample_value \<Rightarrow> error + buffer" where
  "setitem (Buf1 cells) i (Scalar c) =
     (if i < length cells then Inr (Buf1 (cells[i := Some c])) else Inl IndexError)"
| "setitem (Buf1 cells) i (Seq xs) =
     (if i < length cells then Inl ValueError else Inl IndexError)"
| "setitem (Buf2 d rows) i (Scalar c) =
     (if i < length rows then Inr (Buf2 d (rows[i := Some (replicate d c)])) else Inl IndexError)"
| "setitem (Buf2 d rows) i (Seq xs) =
     (if i < length rows then
        (if length xs = d then Inr (Buf2 d (rows[i := Some xs]))
         else if length xs = 1 then Inr (Buf2 d (rows[i := Some (replicate d (hd xs))]))
         else Inl ValueError)
      else Inl IndexError)"

subsection \<open>The sampler and the world it runs in\<close>

text \<open>
  The three callables given to \<^verbatim>\<open>__init__\<close>. The proposal function draws its
  randomness from the hidden state \<open>'g\<close> (NumPy's global generator together with
  whatever state the callable itself keeps) and returns the state it leaves.
\<close>

record 'g sampler =
  propose_func :: "'g \<Rightarrow> sample_value \<times> 'g"
  propose_logpdf :: "sample_value \<Rightarrow> npfloat"
  target_logpdf :: "sample_value \<Rightarrow> npfloat"

text \<open>
  NumPy's generator: \<^verbatim>\<open>np.random.seed\<close> (which may reject the seed) and the unit
  sample behind \<^verbatim>\<open>np.random.uniform\<close>.
\<close>

record 'g generator =
  np_random_seed :: "int \<Rightarrow> error + 'g"
  random_sample :: "'g \<Rightarrow> real \<times> 'g"

text \<open>Calls made to the outside, in the order they happen.\<close>

datatype event =
    Seeded int
  | Proposed sample_value
  | LogQ sample_value
  | Uniform npfloat npfloat
  | LogP sample_value

text \<open>
  What lies outside the sampler object: the state of the generator, and the log
  of outside calls.
\<close>

record 'g world =
  rng :: 'g
  trace :: "event list"

text \<open>The sampler object's one mutable attribute, \<^verbatim>\<open>self.samples\<close>, next to the world.\<close>

record 'g state =
  world :: "'g world"
  samples :: "buffer option"

definition init :: "'g \<Rightarrow> 'g world" where
  "init g = \<lparr>rng = g, trace = []\<rparr>"

text \<open>\<^verbatim>\<open>__init__\<close> sets \<^verbatim>\<open>self.samples = None\<close>.\<close>

definition new_sampler :: "'g world \<Rightarrow> 'g state" where
  "new_sampler w = \<lparr>world = w, samples = None\<rparr>"

definition log_event :: "event \<Rightarrow> 'g world \<Rightarrow> 'g world" where
  "log_event e w = w\<lparr>trace := trace w @ [e]\<rparr>"

subsection \<open>\<^verbatim>\<open>draw\<close>\<close>

text \<open>
  One pass through the body of \<^verbatim>\<open>while True\<close>: the candidate, whether \<^verbatim>\<open>break\<close>
  was reached, and the world left behind. \<^verbatim>\<open>draw\<close> neither reads nor writes
  \<^verbatim>\<open>self.samples\<close>.
\<close>

definition attempt :: "'g generator \<Rightarrow> 'g sampler \<Rightarrow> 'g world \<Rightarrow> sample_value \<times> bool \<times> 'g world" where
  "attempt G S w =
     (let (candidate_sample, g1) = propose_func S (rng w);
          w1 = log_event (Proposed candidate_sample) (w\<lparr>rng := g1\<rparr>);
          upper = propose_logpdf S candidate_sample;
          w2 = log_event (LogQ candidate_sample) w1
      in if np_ge upper MIN_log then
           (let (r, g2) = random_sample G (rng w2);
                threshold = np_uniform0 (np_exp upper) r;
                w3 = log_event (Uniform (np_exp upper) threshold) (w2\<lparr>rng := g2\<rparr>);
                log_threshold = np_log threshold;
                v = target_logpdf S candidate_sample;
                w4 = log_event (LogP candidate_sample) w3
            in (candidate_sample, np_lt log_threshold v, w4))
         else (candidate_sample, False, w2))"

text \<open>The loop has no bound: a run that never accepts is \<open>None\<close>.\<close>

partial_function (option) draw :: "'g generator \<Rightarrow> 'g sampler \<Rightarrow> 'g world \<Rightarrow> (sample_value \<times> 'g world) option" where
  "draw G S w =
     (case attempt G S w of
        (candidate_sample, accepted, w') \<Rightarrow>
          if accepted then Some (candidate_sample, w') else draw G S w')"

text \<open>The world in which pass number \<open>k\<close> of the loop starts (passes are counted from 0).\<close>

fun retries :: "'g generator \<Rightarrow> 'g sampler \<Rightarrow> nat \<Rightarrow> 'g world \<Rightarrow> 'g world" where
  "retries G S 0 w = w"
| "retries G S (Suc k) w = retries G S k (snd (snd (attempt G S w)))"

subsection \<open>\<^verbatim>\<open>sample\<close>\<close>

text \<open>\<^verbatim>\<open>if seed is not None: np.random.seed(seed)\<close>.\<close>

fun seed_step :: "'g generator \<Rightarrow> int option \<Rightarrow> 'g world \<Rightarrow> error + 'g world" where
  "seed_step G None w = Inr w"
| "seed_step G (Some seed) w =
     (case np_random_seed G seed of
        Inl e \<Rightarrow> Inl e
      | Inr g \<Rightarrow> Inr (log_event (Seeded seed) (w\<lparr>rng := g\<rparr>)))"

text \<open>
  The \<^verbatim>\<open>try\<close>/\<^verbatim>\<open>except TypeError\<close>/\<^verbatim>\<open>else\<close> that allocates \<^verbatim>\<open>self.samples\<close>
  from the first draw.
\<close>

definition allocate :: "int \<Rightarrow> sample_value \<Rightarrow> error + buffer" where
  "allocate n first =
     (case py_len first of
        Inl e \<Rightarrow> np_empty1 n
      | Inr d \<Rightarrow> np_empty2 n d)"

text \<open>
  \<^verbatim>\<open>self.samples[i] = x\<close>: item assignment on \<^verbatim>\<open>None\<close> is a \<^verbatim>\<open>TypeError\<close>. The
  array is updated in place, so \<^verbatim>\<open>self.samples\<close> shows every row written so far.
\<close>

definition store :: "nat \<Rightarrow> sample_value \<Rightarrow> buffer option \<Rightarrow> error + buffer" where
  "store i x smp =
     (case smp of
        None \<Rightarrow> Inl TypeError
      | Some buf \<Rightarrow> setitem buf i x)"

text \<open>
  \<^verbatim>\<open>for i in xrange(1, n): self.samples[i] = self.draw()\<close>, from index \<open>i\<close> on.
  The right-hand side is evaluated first; a failed store leaves the array as it was.
\<close>

function sample_loop :: "'g generator \<Rightarrow> 'g sampler \<Rightarrow> nat \<Rightarrow> int \<Rightarrow> 'g state \<Rightarrow> ((error + unit) \<times> 'g state) option" where
  "sample_loop G S i n st =
     (if int i < n then
        (case draw G S (world st) of
           None \<Rightarrow> None
         | Some (x, w1) \<Rightarrow>
             (case store i x (samples st) of
                Inl e \<Rightarrow> Some (Inl e, st\<lparr>world := w1\<rparr>)
              | Inr buf \<Rightarrow> sample_loop G S (Suc i) n \<lparr>world = w1, samples = Some buf\<rparr>))
      else Some (Inr (), st))"
  by pat_completeness auto
termination
  by (relation "measure (\<lambda>(G, S, i, n, st). nat (n - int i))") auto

text \<open>
  \<^verbatim>\<open>sample(n, seed)\<close>. The result is \<open>None\<close> when a draw never returns; otherwise
  the exception raised or the value returned (\<^verbatim>\<open>self.samples\<close>), with the state
  at that moment.
\<close>

definition sample :: "'g generator \<Rightarrow> 'g sampler \<Rightarrow> int \<Rightarrow> int option \<Rightarrow> 'g state \<Rightarrow> ((error + buffer option) \<times> 'g state) option" where
  "sample G S n seed st =
     (case seed_step G seed (world st) of
        Inl e \<Rightarrow> Some (Inl e, st)
      | Inr w0 \<Rightarrow>
          (case draw G S w0 of
             None \<Rightarrow> None
           | Some (first, w1) \<Rightarrow>
               (case allocate n first of
                  Inl e \<Rightarrow> Some (Inl e, st\<lparr>world := w1\<rparr>)
                | Inr buf \<Rightarrow>
                    (case store 0 first (Some buf) of
                       Inl e \<Rightarrow> Some (Inl e, \<lparr>world = w1, samples = Some buf\<rparr>)
                     | Inr buf0 \<Rightarrow>
                         (case sample_loop G S 1 n \<lparr>world = w1, samples = Some buf0\<rparr> of
                            None \<Rightarrow> None
                          | Some (Inl e, st4) \<Rightarrow> Some (Inl e, st4)
                          | Some (Inr u, st4) \<Rightarrow> Some (Inr (samples st4), st4))))))"

subsection \<open>The acceptance rule in the specification's words\<close>

text \<open>
  The rule as the specification words it, for the pass that starts in world \<open>w\<close>: the
  candidate comes from the proposal function, its proposal log-density is not below
  the floor, and the logarithm of a threshold drawn under the proposal's height is
  below the target log-density.
\<close>

definition spec_accepts :: "'g generator \<Rightarrow> 'g sampler \<Rightarrow> 'g world \<Rightarrow> bool" where
  "spec_accepts G S w =
     (let (x, g1) = propose_func S (rng w);
          u = propose_logpdf S x;
          (r, g2) = random_sample G g1;
          t = np_uniform0 (np_exp u) r
      in \<not> np_lt u MIN_log \<and> np_lt (np_log t) (target_logpdf S x))"

subsection \<open>Concrete generators and samplers\<close>

text \<open>
  A generator whose state counts the calls made to it: seeding sets the counter,
  every unit sample is \<open>1/2\<close>.
\<close>

definition G_half :: "nat generator" where
  "G_half = \<lparr>np_random_seed = (\<lambda>s. if s < 0 then Inl ValueError else Inr (nat s)),
             random_sample = (\<lambda>g. (1 / 2, Suc g))\<rparr>"

text \<open>
  A sampler that proposes the counter itself, under a flat proposal density, for a
  target that has no mass at 0.
\<close>

definition S_count :: "nat sampler" where
  "S_count = \<lparr>propose_func = (\<lambda>g. (Scalar (real g), Suc g)),
              propose_logpdf = (\<lambda>x. Fin 0),
              target_logpdf = (\<lambda>x. if x = Scalar 0 then NInf else Fin 0)\<rparr>"

text \<open>The candidates on which the target log-density was evaluated, in order.\<close>

fun tested :: "event list \<Rightarrow> sample_value list" where
  "tested [] = []"
| "tested (LogP x # tr) = x # tested tr"
| "tested (e # tr) = tested tr"

text \<open>Proposal equal to target: a flat density, proposing the counter.\<close>

definition S_flat :: "nat sampler" where
  "S_flat = \<lparr>propose_func = (\<lambda>g. (Scalar (real g), Suc g)),
             propose_logpdf = (\<lambda>x. Fin 0),
             target_logpdf = (\<lambda>x. Fin 0)\<rparr>"

text \<open>A proposal log-density that sits exactly on the floor.\<close>

definition S_floor :: "nat sampler" where
  "S_floor = \<lparr>propose_func = (\<lambda>g. (Scalar (real g), Suc g)),
              propose_logpdf = (\<lambda>x. MIN_log),
              target_logpdf = (\<lambda>x. Fin 0)\<rparr>"

text \<open>A proposal log-density that is \<^verbatim>\<open>-inf\<close> at the first candidate.\<close>

definition S_low :: "nat sampler" where
  "S_low = \<lparr>propose_func = (\<lambda>g. (Scalar (real g), Suc g)),
            propose_logpdf = (\<lambda>x. if x = Scalar 0 then NInf else Fin 0),
            target_logpdf = (\<lambda>x. Fin 0)\<rparr>"




subsection \<open>Batches of draws, and what a buffer takes\<close>

text \<open>\<open>k\<close> calls of \<^verbatim>\<open>draw\<close> in a row: the values returned, in order, and the world left.\<close>

fun draw_seq :: "'g generator \<Rightarrow> 'g sampler \<Rightarrow> nat \<Rightarrow> 'g world \<Rightarrow> (sample_value list \<times> 'g world) option" where
  "draw_seq G S 0 w = Some ([], w)"
| "draw_seq G S (Suc k) w =
     (case draw G S w of
        None \<Rightarrow> None
      | Some (x, w1) \<Rightarrow>
          (case draw_seq G S k w1 of
             None \<Rightarrow> None
           | Some (xs, w2) \<Rightarrow> Some (x # xs, w2)))"

text \<open>
  Whether NumPy assigns \<open>x\<close> to a row of the buffer that \<^verbatim>\<open>sample\<close> allocates from the
  first draw: a float where the first was a float; a float, a list of the same length
  or a list of length one where the first was a list.
\<close>

fun fits :: "sample_value \<Rightarrow> sample_value \<Rightarrow> bool" where
  "fits (Scalar c) (Scalar c') = True"
| "fits (Scalar c) (Seq ys) = False"
| "fits (Seq xs) (Scalar c') = True"
| "fits (Seq xs) (Seq ys) = (length ys = length xs \<or> length ys = 1)"

text \<open>The same question asked of an allocated buffer.\<close>

fun takes :: "buffer \<Rightarrow> sample_value \<Rightarrow> bool" where
  "takes (Buf1 cells) (Scalar c) = True"
| "takes (Buf1 cells) (Seq ys) = False"
| "takes (Buf2 d rows) (Scalar c) = True"
| "takes (Buf2 d rows) (Seq ys) = (length ys = d \<or> length ys = 1)"

text \<open>A sampler whose first proposal is a pair and whose later proposals are floats.\<close>

definition S_mixed :: "nat sampler" where
  "S_mixed = \<lparr>propose_func = (\<lambda>g. (if g = 0 then Seq [1, 2] else Scalar 3, Suc g)),
              propose_logpdf = (\<lambda>x. Fin 0),
              target_logpdf = (\<lambda>x. Fin 0)\<rparr>"

text \<open>A sampler whose first proposal is a float and whose later proposals are pairs.\<close>

definition S_ragged :: "nat sampler" where
  "S_ragged = \<lparr>propose_func = (\<lambda>g. (if g = 0 then Scalar 1 else Seq [1, 2], Suc g)),
               propose_logpdf = (\<lambda>x. Fin 0),
               target_logpdf = (\<lambda>x. Fin 0)\<rparr>"

subsection \<open>Reading the log of outside calls\<close>


text \<open>The numbers a drawn value is made of.\<close>

fun entries :: "sample_value \<Rightarrow> real list" where
  "entries (Scalar c) = [c]"
| "entries (Seq xs) = xs"

text \<open>The seeds given to the generator, in order.\<close>

fun seedings :: "event list \<Rightarrow> int list" where
  "seedings [] = []"
| "seedings (Seeded s # tr) = s # seedings tr"
| "seedings (e # tr) = seedings tr"

text \<open>The same world with a longer past: \<open>p\<close> put in front of its log.\<close>

definition shift :: "event list \<Rightarrow> 'g world \<Rightarrow> 'g world" where
  "shift p w = w\<lparr>trace := p @ trace w\<rparr>"

section \<open>Properties\<close>

subsection \<open>Rounding to a double\<close>

lemma round_even_error: "\<bar>real_of_int (round_even z) - z\<bar> \<le> 1 / 2"
  unfolding round_even_def by (auto simp: abs_if) linarith+

lemma round_even_unique:
  assumes "\<bar>z - real_of_int n\<bar> < 1 / 2"
  shows "round_even z = n"
proof -
  have "\<bar>real_of_int (round_even z) - real_of_int n\<bar> < 1"
    using round_even_error[of z] assms by linarith
  then have "\<bar>round_even z - n\<bar> < 1"
    by (metis of_int_diff of_int_abs of_int_less_1_iff)
  then show ?thesis by simp
qed

lemma round_even_of_int [simp]: "round_even (real_of_int m) = m"
  by (rule round_even_unique) simp

lemma ulp_pos: "0 < ulp x"
  by (simp add: ulp_def)

lemma round_ulp_error:
  "\<bar>real_of_int (round_even (x / ulp x)) * ulp x - x\<bar> \<le> ulp x / 2"
proof -
  have "real_of_int (round_even (x / ulp x)) * ulp x - x =
        (real_of_int (round_even (x / ulp x)) - x / ulp x) * ulp x"
    using ulp_pos[of x] by (simp add: left_diff_distrib)
  then have "\<bar>real_of_int (round_even (x / ulp x)) * ulp x - x\<bar> =
        \<bar>real_of_int (round_even (x / ulp x)) - x / ulp x\<bar> * ulp x"
    using ulp_pos[of x] by (simp add: abs_mult)
  also have "\<dots> \<le> (1 / 2) * ulp x"
    using round_even_error[of "x / ulp x"] ulp_pos[of x] by (intro mult_right_mono) simp_all
  finally show ?thesis by simp
qed

lemma expo_eq:
  assumes "2 powr real_of_int k \<le> \<bar>x\<bar>" and "\<bar>x\<bar> < 2 powr real_of_int (k + 1)" and "- 1022 \<le> k"
  shows "expo x = k"
proof -
  have "0 < (2::real) powr real_of_int k" by simp
  with assms(1) have "0 < \<bar>x\<bar>" by linarith
  then have "\<lfloor>log 2 \<bar>x\<bar>\<rfloor> = k"
    using assms(1,2) by (subst floor_log_eq_powr_iff) simp_all
  with assms(3) show ?thesis by (simp add: expo_def)
qed

lemma expo_le:
  assumes "x \<noteq> 0" and "\<bar>x\<bar> < 2 powr real_of_int (k + 1)" and "- 1022 \<le> k"
  shows "expo x \<le> k"
proof -
  have pos: "0 < \<bar>x\<bar>" using assms(1) by simp
  have "log 2 \<bar>x\<bar> < real_of_int (k + 1)"
    using assms(2) pos by (simp add: log_less_iff)
  then have "\<lfloor>log 2 \<bar>x\<bar>\<rfloor> < k + 1" by linarith
  with assms(3) show ?thesis by (simp add: expo_def)
qed

lemma expo_ge: "- 1022 \<le> expo x"
  by (simp add: expo_def)

lemma two_powr_int:
  "(2::real) powr real_of_int i = (if 0 \<le> i then 2 ^ nat i else 1 / 2 ^ nat (- i))"
  by (simp add: powr_int field_simps)

lemma two_powr_neg_numeral:
  "(2::real) powr (- numeral n) = 1 / 2 ^ numeral n"
  by (simp add: powr_minus inverse_eq_divide)

lemmas two_powr = two_powr_int two_powr_neg_numeral

lemma round_even_zero [simp]: "round_even 0 = 0"
  using round_even_of_int[of 0] by simp

lemma round_even_numeral [simp]: "round_even (numeral n) = numeral n"
  using round_even_of_int[of "numeral n"] by simp

lemma ulp_eq:
  assumes "2 powr real_of_int k \<le> \<bar>x\<bar>" and "\<bar>x\<bar> < 2 powr real_of_int (k + 1)" and "- 1022 \<le> k"
  shows "ulp x = 2 powr real_of_int (k - 52)"
  using expo_eq[OF assms] by (simp add: ulp_def)

lemma ulp_le:
  assumes "x \<noteq> 0" and "\<bar>x\<bar> < 2 powr real_of_int (k + 1)" and "- 1022 \<le> k"
  shows "ulp x \<le> 2 powr real_of_int (k - 52)"
  using expo_le[OF assms] by (simp add: ulp_def)

lemma fl_finite:
  assumes "\<bar>x\<bar> < 2 powr real_of_int (k + 1)" and "- 1022 \<le> k" and "k \<le> 1022"
  shows "fl x = Fin (real_of_int (round_even (x / ulp x)) * ulp x)"
proof (cases "x = 0")
  case True
  then show ?thesis by (simp add: fl_def)
next
  case False
  let ?y = "real_of_int (round_even (x / ulp x)) * ulp x"
  have u: "ulp x \<le> 2 powr real_of_int (k - 52)"
    by (rule ulp_le[OF False assms(1,2)])
  have "2 powr real_of_int (k - 52) \<le> 2 powr real_of_int (k + 1)"
    by simp
  with u have u2: "ulp x \<le> 2 powr real_of_int (k + 1)" by linarith
  have "2 powr real_of_int (k + 1) \<le> 2 powr real_of_int 1023"
    using assms(3) by (intro powr_mono) simp_all
  also have "\<dots> = 2 ^ 1023" by (simp add: two_powr)
  finally have top: "2 powr real_of_int (k + 1) \<le> 2 ^ 1023" .
  have "\<bar>?y\<bar> \<le> \<bar>x\<bar> + ulp x / 2"
    using round_ulp_error[of x] by linarith
  also have "\<dots> < 2 * 2 powr real_of_int (k + 1)"
    using assms(1) u2 ulp_pos[of x] by linarith
  also have "\<dots> \<le> 2 * 2 ^ 1023" using top by simp
  finally have "\<bar>?y\<bar> < 2 ^ 1024" by simp
  then show ?thesis using False by (simp add: fl_def Let_def)
qed

lemma fl_error:
  assumes "\<bar>x\<bar> < 2 ^ 11"
  shows "\<exists>y. fl x = Fin y \<and> \<bar>y - x\<bar> \<le> 1 / 2 ^ 43"
proof (cases "x = 0")
  case True
  then show ?thesis by (simp add: fl_def)
next
  case False
  have b: "\<bar>x\<bar> < 2 powr real_of_int (10 + 1)"
    using assms by (simp add: two_powr)
  have f: "fl x = Fin (real_of_int (round_even (x / ulp x)) * ulp x)"
    by (rule fl_finite[OF b]) simp_all
  have "ulp x \<le> 2 powr real_of_int (10 - 52)"
    by (rule ulp_le[OF False b]) simp
  also have "\<dots> = 1 / 2 ^ 42" by (simp add: two_powr)
  finally have "ulp x / 2 \<le> 1 / 2 ^ 43" by simp
  with round_ulp_error[of x] f show ?thesis by auto
qed

lemma fl_binade:
  assumes "2 powr real_of_int k \<le> \<bar>x\<bar>" and "\<bar>x\<bar> < 2 powr real_of_int (k + 1)"
    and "- 1022 \<le> k" and "k \<le> 1022"
  shows "fl x = Fin (real_of_int (round_even (x / 2 powr real_of_int (k - 52))) * 2 powr real_of_int (k - 52))"
  using fl_finite[OF assms(2,3,4)] ulp_eq[OF assms(1,2,3)] by simp

lemma fl_one: "fl 1 = Fin 1"
proof -
  have "fl 1 = Fin (real_of_int (round_even (1 / 2 powr real_of_int (0 - 52))) * 2 powr real_of_int (0 - 52))"
    by (rule fl_binade) (simp_all add: two_powr)
  moreover have "1 / 2 powr real_of_int (0 - 52) = real_of_int (2 ^ 52)"
    by (simp add: two_powr)
  ultimately show ?thesis by (simp add: two_powr)
qed

lemma fl_half: "fl (1 / 2) = Fin (1 / 2)"
proof -
  have "fl (1 / 2) = Fin (real_of_int (round_even ((1 / 2) / 2 powr real_of_int (- 1 - 52))) * 2 powr real_of_int (- 1 - 52))"
    by (rule fl_binade) (simp_all add: two_powr)
  moreover have "(1 / 2) / 2 powr real_of_int (- 1 - 52) = real_of_int (2 ^ 52)"
    by (simp add: two_powr)
  ultimately show ?thesis by (simp add: two_powr)
qed

lemma ln2_ge_half: "1 / 2 \<le> ln (2::real)"
proof -
  have "norm (exp (1 / 2 :: real)) \<le> 2"
    by (rule exp_bound_half) simp
  then have "exp (1 / 2 :: real) \<le> 2" by simp
  then have "ln (exp (1 / 2 :: real)) \<le> ln 2"
    by (subst ln_le_cancel_iff) simp_all
  then show ?thesis by simp
qed

lemma ln2_le_one: "ln (2::real) \<le> 1"
  using ln_le_minus_one[of "2::real"] by simp

lemma fl_Fin_eq:
  assumes "fl x = Fin y"
  shows "y = real_of_int (round_even (x / ulp x)) * ulp x"
  using assms by (auto simp: fl_def Let_def split: if_splits)

lemma fl_Fin_lt: "fl x = Fin y \<Longrightarrow> \<bar>y\<bar> < 2 ^ 1024"
  by (auto simp: fl_def Let_def split: if_splits)

lemma ulp_ge: "2 powr (- 1074) \<le> ulp x"
proof -
  have "real_of_int (- 1022 - 52) \<le> real_of_int (expo x - 52)"
    using expo_ge[of x] by linarith
  then have "2 powr real_of_int (- 1022 - 52) \<le> 2 powr real_of_int (expo x - 52)"
    by (intro powr_mono) simp_all
  then show ?thesis by (simp add: ulp_def)
qed

lemma fl_pos_ge:
  assumes "fl x = Fin y" and "0 < y"
  shows "2 powr (- 1074) \<le> y"
proof -
  have y: "y = real_of_int (round_even (x / ulp x)) * ulp x"
    by (rule fl_Fin_eq[OF assms(1)])
  have "0 < real_of_int (round_even (x / ulp x))"
    using assms(2) ulp_pos[of x] unfolding y by (simp add: zero_less_mult_iff)
  then have "0 < round_even (x / ulp x)" by simp
  then have "1 \<le> round_even (x / ulp x)" by linarith
  then have "1 \<le> real_of_int (round_even (x / ulp x))" by simp
  then have "1 * ulp x \<le> real_of_int (round_even (x / ulp x)) * ulp x"
    using ulp_pos[of x] by (intro mult_right_mono) simp_all
  with ulp_ge[of x] show ?thesis unfolding y by linarith
qed

lemma eps43: "(1::real) / 2 ^ 43 \<le> 1 / 4"
  by simp

lemma ln_tiny_eq: "ln tiny = - 1022 * ln 2"
proof -
  have a: "ln ((2::real) ^ 1022) = real 1022 * ln 2"
    by (rule ln_realpow)
  have "ln tiny = ln 1 - ln ((2::real) ^ 1022)"
    unfolding tiny_def by (rule ln_divide_pos) simp_all
  with a show ?thesis by simp
qed

lemma MIN_log_bounds: "\<exists>m. MIN_log = Fin m \<and> \<bar>m - ln tiny\<bar> \<le> 1 / 2 ^ 43 \<and> - 1023 \<le> m \<and> m \<le> - 510"
proof -
  have t: "0 < tiny" by (simp add: tiny_def)
  have a: "- 1022 \<le> ln tiny" "ln tiny \<le> - 511"
    using ln2_ge_half ln2_le_one unfolding ln_tiny_eq by linarith+
  then have "\<bar>ln tiny\<bar> < 2 ^ 11" by simp
  from fl_error[OF this] obtain m where m: "fl (ln tiny) = Fin m" "\<bar>m - ln tiny\<bar> \<le> 1 / 2 ^ 43"
    by blast
  have "MIN_log = Fin m" using t m(1) by (simp add: MIN_log_def)
  moreover have "- 1023 \<le> m" "m \<le> - 510" using a m(2) eps43 by linarith+
  ultimately show ?thesis using m(2) by blast
qed

lemma np_log_half: "np_lt (np_log (Fin (1 / 2))) (Fin 0)"
proof -
  have l: "ln (1 / 2 :: real) = - ln 2" by (simp add: ln_divide_pos)
  have "\<bar>ln (1 / 2 :: real)\<bar> < 2 ^ 11"
    unfolding l using ln2_ge_half ln2_le_one by simp
  from fl_error[OF this] obtain y where y: "fl (ln (1 / 2)) = Fin y" "\<bar>y - ln (1 / 2)\<bar> \<le> 1 / 2 ^ 43"
    by blast
  have "y < 0" using y(2) ln2_ge_half eps43 unfolding l by linarith
  then show ?thesis using y(1) by simp
qed

lemma expo_powr_le256:
  assumes "2 powr (- 1030) \<le> x"
  shows "2 powr real_of_int (expo x) \<le> 256 * x"
proof -
  have "0 < (2::real) powr (- 1030)" by simp
  with assms have xpos: "0 < x" by linarith
  show ?thesis
  proof (cases "- 1022 \<le> \<lfloor>log 2 \<bar>x\<bar>\<rfloor>")
    case True
    then have e: "expo x = \<lfloor>log 2 x\<rfloor>" using xpos by (simp add: expo_def)
    have "real_of_int \<lfloor>log 2 x\<rfloor> \<le> log 2 x" by simp
    then have "2 powr real_of_int \<lfloor>log 2 x\<rfloor> \<le> 2 powr log 2 x"
      by (intro powr_mono) simp_all
    also have "\<dots> = x" using xpos by simp
    finally show ?thesis using e xpos by simp
  next
    case False
    then have e: "expo x = - 1022" by (simp add: expo_def)
    have "(2::real) powr real_of_int (- 1022) = 256 * 2 powr (- 1030)"
      by (simp add: two_powr)
    with assms show ?thesis unfolding e by linarith
  qed
qed

lemma fl_rel:
  assumes "2 powr (- 1030) \<le> x" and "fl x = Fin h"
  shows "\<bar>h - x\<bar> \<le> x / 2 ^ 45"
proof -
  have h: "h = real_of_int (round_even (x / ulp x)) * ulp x"
    by (rule fl_Fin_eq[OF assms(2)])
  have "ulp x = 2 powr real_of_int (expo x) * 2 powr (- 52)"
    by (simp add: ulp_def powr_diff powr_minus field_simps)
  also have "\<dots> \<le> (256 * x) * 2 powr (- 52)"
    using expo_powr_le256[OF assms(1)] by (intro mult_right_mono) simp_all
  finally have "ulp x / 2 \<le> x / 2 ^ 45"
    by (simp add: two_powr)
  with round_ulp_error[of x] show ?thesis unfolding h by linarith
qed

lemma exp_floor_ge:
  assumes "MIN_log = Fin m" and "m \<le> a"
  shows "2 powr (- 1023) \<le> exp a"
proof -
  from MIN_log_bounds[unfolded assms(1)] have m: "\<bar>m - ln tiny\<bar> \<le> 1 / 2 ^ 43" by auto
  have "- 1023 * ln 2 \<le> m"
    using m ln2_ge_half eps43 unfolding ln_tiny_eq by linarith
  with assms(2) have "- 1023 * ln 2 \<le> a" by linarith
  then have "exp (- 1023 * ln 2) \<le> exp a" by simp
  then show ?thesis by (simp add: powr_def)
qed

lemma fl_log_double:
  assumes "fl z = Fin c" and "0 < c"
  shows "\<exists>y. fl (ln c) = Fin y \<and> \<bar>y - ln c\<bar> \<le> 1 / 2 ^ 43"
proof -
  have lo: "2 powr (- 1074) \<le> c" by (rule fl_pos_ge[OF assms])
  have hi: "c < 2 ^ 1024" using fl_Fin_lt[OF assms(1)] by linarith
  have "ln (2 powr (- 1074)) \<le> ln c"
    using lo by (subst ln_le_cancel_iff) (simp_all add: assms(2))
  then have a: "- 1074 \<le> ln c" using ln2_le_one by simp
  have "ln c < ln ((2::real) ^ 1024)"
    using hi assms(2) by (subst ln_less_cancel_iff) simp_all
  also have "\<dots> = real 1024 * ln 2" by (rule ln_realpow)
  finally have b: "ln c < 1024" using ln2_le_one by simp
  from a b have "\<bar>ln c\<bar> < 2 ^ 11" by simp
  then show ?thesis by (rule fl_error)
qed

lemma log_under_margin:
  assumes "np_ge u MIN_log" and "np_exp u = Fin h" and "np_uniform0 (Fin h) r = Fin c"
    and "0 < c" and "c \<le> (1 - 1 / 2 ^ 40) * h"
  shows "np_lt (np_log (Fin c)) u"
proof (cases u)
  case (Fin a)
  obtain m where m: "MIN_log = Fin m" using MIN_log_bounds by blast
  from assms(1) have ma: "m \<le> a" unfolding m Fin by simp
  have ea: "2 powr (- 1023) \<le> exp a" by (rule exp_floor_ge[OF m ma])
  have "(2::real) powr (- 1030) \<le> 2 powr (- 1023)" by (intro powr_mono) simp_all
  with ea have ea': "2 powr (- 1030) \<le> exp a" by linarith
  have fh: "fl (exp a) = Fin h" using assms(2) Fin by simp
  have "\<bar>h - exp a\<bar> \<le> exp a / 2 ^ 45" by (rule fl_rel[OF ea' fh])
  then have "h \<le> exp a + exp a / 2 ^ 45" by linarith
  moreover have "exp a * (1 + 1 / 2 ^ 45) = exp a + exp a / 2 ^ 45"
    by (simp only: distrib_left mult_1_right times_divide_eq_right)
  ultimately have hle: "h \<le> exp a * (1 + 1 / 2 ^ 45)" by linarith
  have hpos: "0 < h"
  proof (rule ccontr)
    assume "\<not> 0 < h"
    then have "(1 - 1 / 2 ^ 40) * h \<le> 0" by (simp add: mult_le_0_iff)
    with assms(4,5) show False by linarith
  qed
  have "ln h \<le> ln (exp a * (1 + 1 / 2 ^ 45))"
    using hle hpos by (subst ln_le_cancel_iff) (simp_all add: pos_add_strict mult_pos_pos)
  also have "\<dots> = a + ln (1 + 1 / 2 ^ 45)"
    by (subst ln_mult) simp_all
  also have "\<dots> \<le> a + 1 / 2 ^ 45"
    using ln_add_one_self_le_self[of "1 / 2 ^ 45 :: real"] by simp
  finally have lnh: "ln h \<le> a + 1 / 2 ^ 45" .
  have "ln c \<le> ln ((1 - 1 / 2 ^ 40) * h)"
    using assms(4,5) by (subst ln_le_cancel_iff) simp_all
  also have "\<dots> = ln (1 - 1 / 2 ^ 40) + ln h"
    using hpos by (subst ln_mult) simp_all
  also have "\<dots> \<le> - (1 / 2 ^ 40) + ln h"
    using ln_one_minus_pos_upper_bound[of "1 / 2 ^ 40 :: real"] by simp
  finally have lnc: "ln c \<le> - (1 / 2 ^ 40) + ln h" .
  have "fl (0 + (h - 0) * r) = Fin c" using assms(3) by simp
  from fl_log_double[OF this assms(4)] obtain y where
    y: "fl (ln c) = Fin y" "\<bar>y - ln c\<bar> \<le> 1 / 2 ^ 43" by blast
  have "(1::real) / 2 ^ 45 + 1 / 2 ^ 43 < 1 / 2 ^ 40" by simp
  with lnh lnc y(2) have "y < a" by linarith
  then show ?thesis using y(1) assms(4) Fin by simp
next
  case PInf
  with assms(2) show ?thesis by simp
next
  case NInf
  obtain m where m: "MIN_log = Fin m" using MIN_log_bounds by blast
  from assms(1) show ?thesis unfolding m NInf by simp
next
  case NaN
  with assms(1) show ?thesis by simp
qed

lemma np_ge_refl_MIN: "np_ge MIN_log MIN_log"
proof -
  obtain m where m: "MIN_log = Fin m" using MIN_log_bounds by blast
  show ?thesis unfolding m by simp
qed

lemma np_lt_trans_Fin:
  assumes "np_lt a (Fin m)" and "m \<le> n"
  shows "np_lt a (Fin n)"
  using assms by (cases a) auto

lemma floor_accepted: "np_lt (np_log (np_uniform0 (np_exp MIN_log) (1 / 2))) (Fin 0)"
proof -
  obtain m where m: "MIN_log = Fin m" and mb: "m \<le> - 510"
    using MIN_log_bounds by blast
  have e1: "2 powr (- 1023) \<le> exp m" by (rule exp_floor_ge[OF m]) simp
  have p: "(2::real) powr (- 1030) \<le> 2 powr (- 1025)" "(2::real) powr (- 1025) = 2 powr (- 1023) / 4"
    "0 < (2::real) powr (- 1023)"
    by (simp_all add: two_powr)
  have "exp m \<le> exp 0" using mb by (subst exp_le_cancel_iff) simp
  then have e2: "exp m \<le> 1" by simp
  have "exp m < 2" using e2 by linarith
  then have "\<bar>exp m\<bar> < 2 powr real_of_int (0 + 1)" by simp
  from fl_finite[OF this] obtain h where h: "fl (exp m) = Fin h" by simp
  have "\<bar>h - exp m\<bar> \<le> exp m / 2 ^ 45"
    using e1 p by (intro fl_rel[OF _ h]) linarith
  moreover have "exp m / 2 ^ 45 \<le> exp m / 2" by (simp add: field_simps)
  ultimately have hb: "exp m / 2 \<le> h" "h \<le> 2" using e2 by linarith+
  have hx: "2 powr (- 1030) \<le> h / 2" using hb(1) e1 p by linarith
  have hpos: "0 < h" using hb(1) e1 p(3) by linarith
  have "\<bar>h / 2\<bar> < 2" using hb(2) hpos by simp
  then have "\<bar>h / 2\<bar> < 2 powr real_of_int (0 + 1)" by simp
  from fl_finite[OF this] obtain c where c: "fl (h / 2) = Fin c" by simp
  have cr: "\<bar>c - h / 2\<bar> \<le> (h / 2) / 2 ^ 45" by (rule fl_rel[OF hx c])
  have "(h / 2) / 2 ^ 45 \<le> h / 4" using hpos by (simp add: field_simps)
  with cr hpos have cb: "0 < c" "c \<le> 3 * h / 4" by linarith+
  have "3 * h / 4 \<le> (1 - 1 / 2 ^ 40) * h" using hpos by (simp add: field_simps)
  with cb(2) have cm: "c \<le> (1 - 1 / 2 ^ 40) * h" by linarith
  have ex: "np_exp MIN_log = Fin h" using h by (simp add: m)
  have un: "np_uniform0 (Fin h) (1 / 2) = Fin c" using c by simp
  have "np_lt (np_log (Fin c)) MIN_log"
    by (rule log_under_margin[OF np_ge_refl_MIN ex un cb(1) cm])
  then have "np_lt (np_log (Fin c)) (Fin m)" unfolding m .
  then have "np_lt (np_log (Fin c)) (Fin 0)"
    by (rule np_lt_trans_Fin) (use mb in simp)
  then show ?thesis by (simp only: ex un)
qed



subsection \<open>The floor, the comparisons, and the loop of \<^verbatim>\<open>draw\<close>\<close>

lemma np_lt_NaN_right [simp]: "np_lt a NaN = False"
  by (cases a) simp_all

lemma np_ge_NaN_right [simp]: "np_ge a NaN = False"
  by (cases a) simp_all

lemma np_lt_NInf_right [simp]: "np_lt a NInf = False"
  by (cases a) simp_all

lemma np_ge_Fin_iff: "np_ge u (Fin m) \<longleftrightarrow> (u \<noteq> NaN \<and> \<not> np_lt u (Fin m))"
  by (cases u) auto

lemma np_ge_MIN_iff: "np_ge u MIN_log \<longleftrightarrow> (u \<noteq> NaN \<and> \<not> np_lt u MIN_log)"
proof -
  obtain m where m: "MIN_log = Fin m" using MIN_log_bounds by blast
  show ?thesis unfolding m by (rule np_ge_Fin_iff)
qed

lemma np_ge_nonneg_MIN: "0 \<le> a \<Longrightarrow> np_ge (Fin a) MIN_log"
proof -
  assume a: "0 \<le> a"
  obtain m where m: "MIN_log = Fin m" and mb: "m \<le> - 510" using MIN_log_bounds by blast
  show ?thesis unfolding m using a mb by simp
qed

lemma np_lt_nonneg_MIN: "0 \<le> a \<Longrightarrow> np_lt (Fin a) MIN_log = False"
  using np_ge_nonneg_MIN[of a] by (simp add: np_ge_MIN_iff)

lemma np_lt_NInf_MIN: "np_lt NInf MIN_log"
proof -
  obtain m where m: "MIN_log = Fin m" using MIN_log_bounds by blast
  show ?thesis unfolding m by simp
qed

lemma np_ge_NInf_MIN: "np_ge NInf MIN_log = False"
  using np_lt_NInf_MIN by (simp add: np_ge_MIN_iff)

lemma np_exp_zero: "np_exp (Fin 0) = Fin 1"
  by (simp add: fl_one)

lemma np_uniform_half: "np_uniform0 (Fin 1) (1 / 2) = Fin (1 / 2)"
  by (simp add: fl_half)


declare np_exp.simps(1) [simp del]

declare np_log.simps(1) [simp del]

declare np_uniform0.simps(1) [simp del]

lemmas float_simps = np_ge_nonneg_MIN np_lt_nonneg_MIN np_lt_NInf_MIN np_ge_NInf_MIN np_ge_refl_MIN
  np_exp_zero np_uniform_half np_log_half

lemma attempt_candidate: "fst (attempt G S w) = fst (propose_func S (rng w))"
  by (simp add: attempt_def Let_def split: prod.splits)

lemma draw_unfold:
  "draw G S w = (if fst (snd (attempt G S w)) then Some (fst (attempt G S w), snd (snd (attempt G S w)))
                  else draw G S (snd (snd (attempt G S w))))"
  by (subst draw.simps) (simp split: prod.splits)

lemma draw_after_retries:
  "\<forall>j<k. \<not> fst (snd (attempt G S (retries G S j w))) \<Longrightarrow> draw G S w = draw G S (retries G S k w)"
proof (induction k arbitrary: w)
  case 0 show ?case by simp
next
  case (Suc k)
  from Suc.prems have r0: "\<not> fst (snd (attempt G S w))" by (metis retries.simps(1) zero_less_Suc)
  have "\<forall>j<k. \<not> fst (snd (attempt G S (retries G S j (snd (snd (attempt G S w))))))"
    using Suc.prems by (metis Suc_less_eq retries.simps(2))
  from Suc.IH[OF this] r0 show ?case by (subst draw_unfold) simp
qed

lemma draw_returns_retries:
  assumes "draw G S w = Some y"
  shows "\<exists>k. (\<forall>j<k. \<not> fst (snd (attempt G S (retries G S j w)))) \<and>
             attempt G S (retries G S k w) = (fst y, True, snd y)"
  using assms
proof (induct rule: draw.raw_induct[rotated 1, consumes 1, case_names step])
  case (step drw G S w y)
  obtain x acc w1 where att: "attempt G S w = (x, acc, w1)" by (cases "attempt G S w") auto
  show ?case
  proof (cases acc)
    case True
    with step(2) att have "y = (x, w1)" by simp
    with att True have "(\<forall>j<(0::nat). \<not> fst (snd (attempt G S (retries G S j w)))) \<and>
             attempt G S (retries G S 0 w) = (fst y, True, snd y)" by simp
    then show ?thesis by blast
  next
    case False
    with step(2) att have "drw G S w1 = Some y" by simp
    from step(1)[OF this] obtain k where
      k: "\<forall>j<k. \<not> fst (snd (attempt G S (retries G S j w1)))"
         "attempt G S (retries G S k w1) = (fst y, True, snd y)" by blast
    have "\<forall>j<Suc k. \<not> fst (snd (attempt G S (retries G S j w)))"
    proof (intro allI impI)
      fix j assume "j < Suc k"
      then show "\<not> fst (snd (attempt G S (retries G S j w)))"
        using k(1) att False by (cases j) auto
    qed
    moreover have "attempt G S (retries G S (Suc k) w) = (fst y, True, snd y)"
      using k(2) att by simp
    ultimately show ?thesis by blast
  qed
qed


subsection \<open>Evaluating the concrete instances\<close>

lemmas run_simps = G_half_def attempt_def log_event_def init_def Let_def float_simps

subsection \<open>C4: what \<^verbatim>\<open>draw\<close> returns\<close>

lemma attempt_accepted: "fst (snd (attempt G S w)) = spec_accepts G S w"
  apply (simp add: attempt_def spec_accepts_def Let_def split: prod.splits)
  apply (auto simp: np_ge_MIN_iff log_event_def)
  done

text \<open>
  Claim C4. \<^verbatim>\<open>draw()\<close> returns the candidate \<open>x\<close> (leaving state \<open>w'\<close>) if and only if
  some pass \<open>k\<close> of the loop proposes \<open>x\<close> and passes the acceptance rule as the
  specification words it (\<open>u = log q(x)\<close> not below the floor, and \<open>log t < log p(x)\<close>
  for the threshold \<open>t\<close> drawn under \<open>exp u\<close>), while every earlier pass failed the rule
  and was retried.
\<close>

theorem draw_returns_iff:
  "draw G S w = Some (x, w') \<longleftrightarrow>
     (\<exists>k. (\<forall>j<k. \<not> spec_accepts G S (retries G S j w)) \<and>
          spec_accepts G S (retries G S k w) \<and>
          x = fst (propose_func S (rng (retries G S k w))) \<and>
          w' = snd (snd (attempt G S (retries G S k w))))"
proof
  assume "draw G S w = Some (x, w')"
  from draw_returns_retries[OF this] obtain k where
    k: "\<forall>j<k. \<not> fst (snd (attempt G S (retries G S j w)))"
       "attempt G S (retries G S k w) = (x, True, w')" by auto
  have "spec_accepts G S (retries G S k w)"
    using k(2) attempt_accepted[of G S "retries G S k w"] by simp
  moreover have "x = fst (propose_func S (rng (retries G S k w)))"
    using k(2) attempt_candidate[of G S "retries G S k w"] by simp
  moreover have "w' = snd (snd (attempt G S (retries G S k w)))" using k(2) by simp
  ultimately show "\<exists>k. (\<forall>j<k. \<not> spec_accepts G S (retries G S j w)) \<and>
          spec_accepts G S (retries G S k w) \<and>
          x = fst (propose_func S (rng (retries G S k w))) \<and>
          w' = snd (snd (attempt G S (retries G S k w)))"
    using k(1) by (auto simp: attempt_accepted)
next
  assume "\<exists>k. (\<forall>j<k. \<not> spec_accepts G S (retries G S j w)) \<and>
          spec_accepts G S (retries G S k w) \<and>
          x = fst (propose_func S (rng (retries G S k w))) \<and>
          w' = snd (snd (attempt G S (retries G S k w)))"
  then obtain k where k: "\<forall>j<k. \<not> spec_accepts G S (retries G S j w)"
      "spec_accepts G S (retries G S k w)"
      "x = fst (propose_func S (rng (retries G S k w)))"
      "w' = snd (snd (attempt G S (retries G S k w)))" by blast
  from k(1) have "draw G S w = draw G S (retries G S k w)"
    by (intro draw_after_retries) (simp add: attempt_accepted)
  also have "\<dots> = Some (x, w')"
    using k(2,3,4) by (subst draw_unfold) (simp add: attempt_accepted attempt_candidate)
  finally show "draw G S w = Some (x, w')" .
qed

lemma att0: "attempt G_half S_count (init 0) = (Scalar 0, False, \<lparr>rng = 2,
   trace = [Proposed (Scalar 0), LogQ (Scalar 0), Uniform (Fin 1) (Fin (1/2)), LogP (Scalar 0)]\<rparr>)"
  by (simp add: run_simps S_count_def)

theorem draw_returns_iff_witness:
  "draw G_half S_count (init 0) =
     Some (Scalar 2, \<lparr>rng = 4,
       trace = [Proposed (Scalar 0), LogQ (Scalar 0), Uniform (Fin 1) (Fin (1 / 2)), LogP (Scalar 0),
                Proposed (Scalar 2), LogQ (Scalar 2), Uniform (Fin 1) (Fin (1 / 2)), LogP (Scalar 2)]\<rparr>)"
proof -
  have r1: "retries G_half S_count (Suc 0) (init 0) = \<lparr>rng = 2,
      trace = [Proposed (Scalar 0), LogQ (Scalar 0), Uniform (Fin 1) (Fin (1 / 2)), LogP (Scalar 0)]\<rparr>"
    by (simp add: att0)
  have a: "\<forall>j<Suc 0. \<not> spec_accepts G_half S_count (retries G_half S_count j (init 0))"
    by (simp add: spec_accepts_def run_simps S_count_def)
  have b: "spec_accepts G_half S_count (retries G_half S_count (Suc 0) (init 0))"
    unfolding r1 by (simp add: spec_accepts_def run_simps S_count_def)
  have c: "attempt G_half S_count (retries G_half S_count (Suc 0) (init 0)) = (Scalar 2, True, \<lparr>rng = 4,
       trace = [Proposed (Scalar 0), LogQ (Scalar 0), Uniform (Fin 1) (Fin (1 / 2)), LogP (Scalar 0),
                Proposed (Scalar 2), LogQ (Scalar 2), Uniform (Fin 1) (Fin (1 / 2)), LogP (Scalar 2)]\<rparr>)"
    unfolding r1 by (simp add: run_simps S_count_def)
  show ?thesis
    apply (rule draw_returns_iff[THEN iffD2])
    apply (rule exI[of _ "Suc 0"])
    using a b c unfolding r1 by (simp add: run_simps S_count_def)
qed

subsection \<open>C3: the underflow guard\<close>

lemma tested_append [simp]: "tested (a @ b) = tested a @ tested b"
  by (induction a rule: tested.induct) simp_all

lemma np_lt_not_ge: "np_lt u m \<Longrightarrow> \<not> np_ge u m"
  by (cases u; cases m) auto

lemma attempt_trace:
  "\<exists>ev. trace (snd (snd (attempt G S w))) = trace w @ ev \<and>
        (\<forall>x\<in>set (tested ev). np_ge (propose_logpdf S x) MIN_log)"
  by (auto simp: attempt_def Let_def log_event_def split: prod.splits)

lemma retries_trace:
  "\<exists>ev. trace (retries G S k w) = trace w @ ev \<and>
        (\<forall>x\<in>set (tested ev). np_ge (propose_logpdf S x) MIN_log)"
proof (induction k arbitrary: w)
  case 0
  show ?case by simp
next
  case (Suc k)
  obtain e1 where e1: "trace (snd (snd (attempt G S w))) = trace w @ e1"
    "\<forall>x\<in>set (tested e1). np_ge (propose_logpdf S x) MIN_log"
    using attempt_trace[of G S w] by blast
  obtain e2 where e2: "trace (retries G S k (snd (snd (attempt G S w)))) = trace (snd (snd (attempt G S w))) @ e2"
    "\<forall>x\<in>set (tested e2). np_ge (propose_logpdf S x) MIN_log"
    using Suc.IH[of "snd (snd (attempt G S w))"] by blast
  have "trace (retries G S (Suc k) w) = trace w @ (e1 @ e2)" using e1 e2 by simp
  moreover have "\<forall>x\<in>set (tested (e1 @ e2)). np_ge (propose_logpdf S x) MIN_log"
    using e1 e2 by auto
  ultimately show ?case by blast
qed

lemma draw_tested:
  assumes "draw G S w = Some (y, w')"
  shows "\<exists>ev. trace w' = trace w @ ev \<and> (\<forall>x\<in>set (tested ev). np_ge (propose_logpdf S x) MIN_log)"
proof -
  from draw_returns_retries[OF assms] obtain k where
    k: "attempt G S (retries G S k w) = (y, True, w')" by auto
  obtain e1 where e1: "trace (retries G S k w) = trace w @ e1"
    "\<forall>x\<in>set (tested e1). np_ge (propose_logpdf S x) MIN_log"
    using retries_trace[of G S k w] by blast
  obtain e2 where e2: "trace (snd (snd (attempt G S (retries G S k w)))) = trace (retries G S k w) @ e2"
    "\<forall>x\<in>set (tested e2). np_ge (propose_logpdf S x) MIN_log"
    using attempt_trace[of G S "retries G S k w"] by blast
  have "trace w' = trace w @ (e1 @ e2)" using e1 e2 k by simp
  moreover have "\<forall>x\<in>set (tested (e1 @ e2)). np_ge (propose_logpdf S x) MIN_log"
    using e1 e2 by auto
  ultimately show ?thesis by blast
qed

text \<open>
  Claim C3, as amended. A candidate whose proposal log-density is strictly below the
  floor is not acceptance-tested: the pass makes no uniform draw and no call to the
  target log-density, and the loop goes on to the next candidate. In a run of
  \<^verbatim>\<open>draw\<close> that returns, every candidate the target log-density was evaluated on has a
  proposal log-density at or above the floor.
\<close>

theorem below_floor_resampled:
  "(propose_func S (rng w) = (x, g1) \<and> np_lt (propose_logpdf S x) MIN_log \<longrightarrow>
      attempt G S w = (x, False, \<lparr>rng = g1, trace = trace w @ [Proposed x, LogQ x]\<rparr>) \<and>
      draw G S w = draw G S \<lparr>rng = g1, trace = trace w @ [Proposed x, LogQ x]\<rparr>) \<and>
   (draw G S w = Some (y, w') \<longrightarrow>
      (\<forall>c\<in>set (tested (drop (length (trace w)) (trace w'))). np_ge (propose_logpdf S c) MIN_log))"
proof (intro conjI impI)
  assume a: "propose_func S (rng w) = (x, g1) \<and> np_lt (propose_logpdf S x) MIN_log"
  then have nge: "\<not> np_ge (propose_logpdf S x) MIN_log"
    by (simp add: np_lt_not_ge)
  show att: "attempt G S w = (x, False, \<lparr>rng = g1, trace = trace w @ [Proposed x, LogQ x]\<rparr>)"
    using a nge by (simp add: attempt_def Let_def log_event_def)
  show "draw G S w = draw G S \<lparr>rng = g1, trace = trace w @ [Proposed x, LogQ x]\<rparr>"
    by (subst draw_unfold) (simp add: att)
next
  assume "draw G S w = Some (y, w')"
  from draw_tested[OF this]
  show "\<forall>c\<in>set (tested (drop (length (trace w)) (trace w'))). np_ge (propose_logpdf S c) MIN_log"
    by auto
qed

lemma att_low0: "attempt G_half S_low (init 0) = (Scalar 0, False, \<lparr>rng = Suc 0, trace = [Proposed (Scalar 0), LogQ (Scalar 0)]\<rparr>)"
  by (simp add: run_simps S_low_def)

lemma att_low1: "attempt G_half S_low \<lparr>rng = Suc 0, trace = [Proposed (Scalar 0), LogQ (Scalar 0)]\<rparr> =
    (Scalar 1, True, \<lparr>rng = 3, trace = [Proposed (Scalar 0), LogQ (Scalar 0),
        Proposed (Scalar 1), LogQ (Scalar 1), Uniform (Fin 1) (Fin (1 / 2)), LogP (Scalar 1)]\<rparr>)"
  by (simp add: run_simps S_low_def)

lemma draw_low: "draw G_half S_low (init 0) = Some (Scalar 1, \<lparr>rng = 3, trace = [Proposed (Scalar 0), LogQ (Scalar 0),
        Proposed (Scalar 1), LogQ (Scalar 1), Uniform (Fin 1) (Fin (1 / 2)), LogP (Scalar 1)]\<rparr>)"
  apply (subst draw_unfold)
  apply (simp only: att_low0 fst_conv snd_conv if_False)
  apply (subst draw_unfold)
  apply (simp only: att_low1 fst_conv snd_conv if_True)
  done

theorem below_floor_resampled_witness:
  "propose_func S_low (rng (init 0)) = (Scalar 0, Suc 0) \<and>
   np_lt (propose_logpdf S_low (Scalar 0)) MIN_log \<and>
   attempt G_half S_low (init 0) = (Scalar 0, False, \<lparr>rng = Suc 0, trace = [Proposed (Scalar 0), LogQ (Scalar 0)]\<rparr>) \<and>
   draw G_half S_low (init 0) = draw G_half S_low \<lparr>rng = Suc 0, trace = [Proposed (Scalar 0), LogQ (Scalar 0)]\<rparr> \<and>
   draw G_half S_low (init 0) = Some (Scalar 1, \<lparr>rng = 3, trace = [Proposed (Scalar 0), LogQ (Scalar 0),
        Proposed (Scalar 1), LogQ (Scalar 1), Uniform (Fin 1) (Fin (1 / 2)), LogP (Scalar 1)]\<rparr>) \<and>
   np_ge (propose_logpdf S_low (Scalar 1)) MIN_log"
proof -
  have h1: "propose_func S_low (rng (init 0)) = (Scalar 0, Suc 0)"
    by (simp add: S_low_def init_def)
  have h2: "np_lt (propose_logpdf S_low (Scalar 0)) MIN_log"
    by (simp add: S_low_def np_lt_NInf_MIN)
  note th = below_floor_resampled[of S_low "init 0" "Scalar 0" "Suc 0" G_half "Scalar 1"
      "\<lparr>rng = 3, trace = [Proposed (Scalar 0), LogQ (Scalar 0),
        Proposed (Scalar 1), LogQ (Scalar 1), Uniform (Fin 1) (Fin (1 / 2)), LogP (Scalar 1)]\<rparr>"]
  have ab: "attempt G_half S_low (init 0) = (Scalar 0, False, \<lparr>rng = Suc 0, trace = trace (init (0::nat)) @ [Proposed (Scalar 0), LogQ (Scalar 0)]\<rparr>) \<and>
     draw G_half S_low (init 0) = draw G_half S_low \<lparr>rng = Suc 0, trace = trace (init (0::nat)) @ [Proposed (Scalar 0), LogQ (Scalar 0)]\<rparr>"
    using th[THEN conjunct1] h1 h2 by blast
  have c: "np_ge (propose_logpdf S_low (Scalar 1)) MIN_log"
    using th[THEN conjunct2, THEN mp, OF draw_low] by (simp add: init_def)
  show ?thesis using h1 h2 ab c draw_low by (simp add: init_def)
qed

text \<open>
  The claim as written says "at or below": a candidate whose proposal log-density
  equals the floor is acceptance-tested (the guard is \<^verbatim>\<open>upper >= MIN\<close>), and here it
  is accepted.
\<close>

theorem floor_itself_is_tested:
  "np_ge MIN_log (propose_logpdf S_floor (Scalar 0)) \<and>
   draw G_half S_floor (init 0) =
     Some (Scalar 0, \<lparr>rng = 2, trace = [Proposed (Scalar 0), LogQ (Scalar 0),
        Uniform (np_exp MIN_log) (np_uniform0 (np_exp MIN_log) (1 / 2)), LogP (Scalar 0)]\<rparr>)"
  by (subst draw_unfold) (simp add: run_simps S_floor_def floor_accepted)

subsection \<open>C8: proposal equal to target\<close>






subsection \<open>Buffers\<close>

declare sample_loop.simps [simp del]

lemma setitem_cases:
  "setitem buf i x =
     (if i < buf_len buf then (if takes buf x then setitem buf i x else Inl ValueError)
      else Inl IndexError)"
  by (cases buf; cases x) auto

lemma setitem_ok:
  "i < buf_len buf \<Longrightarrow> takes buf x \<Longrightarrow> \<exists>buf'. setitem buf i x = Inr buf'"
  by (cases buf; cases x) auto

lemma setitem_misfit:
  "i < buf_len buf \<Longrightarrow> \<not> takes buf x \<Longrightarrow> setitem buf i x = Inl ValueError"
  by (cases buf; cases x) auto

lemma setitem_shape:
  "setitem buf i x = Inr buf' \<Longrightarrow> shape buf' = shape buf \<and> buf_len buf' = buf_len buf"
  by (cases buf; cases x) (auto split: if_splits)

lemma setitem_takes:
  "setitem buf i x = Inr buf' \<Longrightarrow> takes buf' y = takes buf y"
  by (cases buf; cases x; cases y) (auto split: if_splits)

lemma setitem_row_other:
  "setitem buf i x = Inr buf' \<Longrightarrow> j \<noteq> i \<Longrightarrow> row buf' j = row buf j"
  by (cases buf; cases x) (auto split: if_splits)

lemma setitem_in_range:
  "setitem buf i x = Inr buf' \<Longrightarrow> i < buf_len buf"
  by (cases buf; cases x) (auto split: if_splits)

lemma takes_fits1: "takes (Buf1 cells) x = fits (Scalar c) x"
  by (cases x) simp_all

lemma takes_fits2: "takes (Buf2 (length xs) rows) x = fits (Seq xs) x"
  by (cases x) simp_all

lemma allocate_ok:
  "0 \<le> n \<Longrightarrow> \<exists>buf. allocate n first = Inr buf \<and> buf_len buf = nat n \<and>
      (\<forall>x. takes buf x = fits first x) \<and> (\<forall>j. row buf j = None) \<and>
      shape buf = (case first of Scalar c \<Rightarrow> [nat n] | Seq xs \<Rightarrow> [nat n, length xs])"
  by (cases first) (simp_all add: allocate_def np_empty1_def np_empty2_def takes_fits1 takes_fits2)

lemma allocate_negative:
  "n < 0 \<Longrightarrow> allocate n first = Inl ValueError"
  by (cases first) (auto simp: allocate_def np_empty1_def np_empty2_def)

lemma fits_self: "fits x x"
  by (cases x) auto

subsection \<open>The loop of \<^verbatim>\<open>sample\<close> against a batch of draws\<close>

lemma draw_seq_Suc:
  "draw_seq G S (Suc k) w = Some (xs, w') \<Longrightarrow>
   \<exists>x w1 xs'. draw G S w = Some (x, w1) \<and> draw_seq G S k w1 = Some (xs', w') \<and> xs = x # xs'"
  by (auto split: option.splits)

lemma loop_all_fit:
  assumes "draw_seq G S k (world st) = Some (xs, w')"
    and "samples st = Some buf"
    and "int (i + k) = n"
    and "i + k \<le> buf_len buf"
    and "\<forall>x\<in>set xs. takes buf x"
  shows "\<exists>buf'. sample_loop G S i n st = Some (Inr (), \<lparr>world = w', samples = Some buf'\<rparr>) \<and>
           buf_len buf' = buf_len buf"
  using assms
proof (induction k arbitrary: i st buf xs)
  case 0
  then have "\<not> int i < n" by simp
  moreover from 0 have "st = \<lparr>world = w', samples = Some buf\<rparr>" by (cases st) simp
  ultimately show ?case by (subst sample_loop.simps) simp
next
  case (Suc k)
  from draw_seq_Suc[OF Suc.prems(1)] obtain x w1 xs' where
    d: "draw G S (world st) = Some (x, w1)" and ds: "draw_seq G S k w1 = Some (xs', w')"
    and xs: "xs = x # xs'" by blast
  have lt: "int i < n" using Suc.prems(3) by simp
  have "i < buf_len buf" using Suc.prems(4) by simp
  moreover have "takes buf x" using Suc.prems(5) xs by simp
  ultimately obtain b1 where b1: "setitem buf i x = Inr b1" using setitem_ok by blast
  let ?st1 = "\<lparr>world = w1, samples = Some b1\<rparr>"
  have "\<exists>buf'. sample_loop G S (Suc i) n ?st1 = Some (Inr (), \<lparr>world = w', samples = Some buf'\<rparr>) \<and>
           buf_len buf' = buf_len b1"
  proof (rule Suc.IH)
    show "draw_seq G S k (world ?st1) = Some (xs', w')" using ds by simp
    show "samples ?st1 = Some b1" by simp
    show "int (Suc i + k) = n" using Suc.prems(3) by simp
    show "Suc i + k \<le> buf_len b1" using Suc.prems(4) setitem_shape[OF b1] by simp
    show "\<forall>x\<in>set xs'. takes b1 x" using Suc.prems(5) xs setitem_takes[OF b1] by simp
  qed
  then obtain buf' where
    "sample_loop G S (Suc i) n ?st1 = Some (Inr (), \<lparr>world = w', samples = Some buf'\<rparr>)"
    "buf_len buf' = buf_len b1" by blast
  then show ?case
    using lt d b1 Suc.prems(2) setitem_shape[OF b1]
    by (subst sample_loop.simps) (simp add: store_def)
qed

lemma loop_misfit:
  assumes "draw_seq G S (Suc k) (world st) = Some (xs, w')"
    and "samples st = Some buf"
    and "int (i + k) < n"
    and "i + k < buf_len buf"
    and "\<forall>j<k. takes buf (xs ! j)"
    and "\<not> takes buf (xs ! k)"
  shows "\<exists>buf'. sample_loop G S i n st = Some (Inl ValueError, \<lparr>world = w', samples = Some buf'\<rparr>)"
  using assms
proof (induction k arbitrary: i st buf xs)
  case 0
  from draw_seq_Suc[OF 0(1)] obtain x w1 xs' where
    d: "draw G S (world st) = Some (x, w1)" and ds: "draw_seq G S 0 w1 = Some (xs', w')"
    and xs: "xs = x # xs'" by blast
  from ds have w: "w1 = w'" by simp
  have "setitem buf i x = Inl ValueError"
    using 0(4,6) xs by (intro setitem_misfit) simp_all
  moreover obtain w0 where st: "st = \<lparr>world = w0, samples = Some buf\<rparr>"
    using 0(2) by (cases st) simp
  ultimately show ?case
    using 0(3) d w by (subst sample_loop.simps) (simp add: store_def st)
next
  case (Suc k)
  from draw_seq_Suc[OF Suc.prems(1)] obtain x w1 xs' where
    d: "draw G S (world st) = Some (x, w1)" and ds: "draw_seq G S (Suc k) w1 = Some (xs', w')"
    and xs: "xs = x # xs'" by blast
  have lt: "int i < n" using Suc.prems(3) by simp
  have "i < buf_len buf" using Suc.prems(4) by simp
  moreover have "takes buf x" using Suc.prems(5) xs by auto
  ultimately obtain b1 where b1: "setitem buf i x = Inr b1" using setitem_ok by blast
  let ?st1 = "\<lparr>world = w1, samples = Some b1\<rparr>"
  have "\<exists>buf'. sample_loop G S (Suc i) n ?st1 = Some (Inl ValueError, \<lparr>world = w', samples = Some buf'\<rparr>)"
  proof (rule Suc.IH)
    show "draw_seq G S (Suc k) (world ?st1) = Some (xs', w')" using ds by simp
    show "samples ?st1 = Some b1" by simp
    show "int (Suc i + k) < n" using Suc.prems(3) by simp
    show "Suc i + k < buf_len b1" using Suc.prems(4) setitem_shape[OF b1] by simp
    show "\<forall>j<k. takes b1 (xs' ! j)"
    proof (intro allI impI)
      fix j assume "j < k"
      then have "takes buf (xs ! Suc j)" using Suc.prems(5) by simp
      then show "takes b1 (xs' ! j)" using xs setitem_takes[OF b1] by simp
    qed
    show "\<not> takes b1 (xs' ! k)" using Suc.prems(6) xs setitem_takes[OF b1] by simp
  qed
  then show ?case
    using lt d b1 Suc.prems(2)
    by (subst sample_loop.simps) (simp add: store_def)
qed

subsection \<open>Running the concrete samplers\<close>

lemma draw_flat_density:
  assumes "propose_logpdf S (fst (propose_func S (rng w))) = Fin 0"
    and "target_logpdf S (fst (propose_func S (rng w))) = Fin 0"
  shows "draw G_half S w =
    Some (fst (propose_func S (rng w)),
          \<lparr>rng = Suc (snd (propose_func S (rng w))),
           trace = trace w @ [Proposed (fst (propose_func S (rng w))), LogQ (fst (propose_func S (rng w))),
                              Uniform (Fin 1) (Fin (1 / 2)), LogP (fst (propose_func S (rng w)))]\<rparr>)"
proof -
  obtain x g1 where p: "propose_func S (rng w) = (x, g1)"
    by (cases "propose_func S (rng w)") auto
  with assms have q: "propose_logpdf S x = Fin 0" "target_logpdf S x = Fin 0"
    by simp_all
  have att: "attempt G_half S w =
      (x, True, \<lparr>rng = Suc g1,
                 trace = trace w @ [Proposed x, LogQ x, Uniform (Fin 1) (Fin (1 / 2)), LogP x]\<rparr>)"
    using p q by (simp add: attempt_def log_event_def Let_def float_simps G_half_def)
  show ?thesis
    by (subst draw_unfold) (simp add: att p)
qed

lemma draw_S_flat:
  "draw G_half S_flat w =
    Some (Scalar (real (rng w)),
          \<lparr>rng = Suc (Suc (rng w)),
           trace = trace w @ [Proposed (Scalar (real (rng w))), LogQ (Scalar (real (rng w))),
                              Uniform (Fin 1) (Fin (1 / 2)), LogP (Scalar (real (rng w)))]\<rparr>)"
  by (subst draw_flat_density) (simp_all add: S_flat_def)

subsection \<open>C1: the length of the returned buffer\<close>

lemma sample_first_steps:
  assumes "seed_step G seed (world st) = Inr w0"
    and "draw G S w0 = Some (first, w1)"
    and "allocate n first = Inr buf"
    and "setitem buf 0 first = Inr buf0"
  shows "sample G S n seed st =
     (case sample_loop G S 1 n \<lparr>world = w1, samples = Some buf0\<rparr> of
        None \<Rightarrow> None
      | Some (Inl e, st4) \<Rightarrow> Some (Inl e, st4)
      | Some (Inr u, st4) \<Rightarrow> Some (Inr (samples st4), st4))"
  using assms by (simp add: sample_def store_def)

text \<open>
  Claim C1, as amended. For \<open>n \<ge> 1\<close>: when the \<open>n\<close> draws of the batch return and each
  of them can be assigned to a row of the buffer shaped by the first, \<^verbatim>\<open>sample(n, seed)\<close>
  returns a buffer of length exactly \<open>n\<close> along its first axis, which is also what
  \<^verbatim>\<open>self.samples\<close> holds afterwards.
\<close>

theorem sample_returns_n:
  assumes "1 \<le> n"
    and "seed_step G seed (world st) = Inr w0"
    and "draw_seq G S (nat n) w0 = Some (xs, w')"
    and "\<forall>x\<in>set xs. fits (hd xs) x"
  shows "\<exists>buf. sample G S n seed st = Some (Inr (Some buf), \<lparr>world = w', samples = Some buf\<rparr>) \<and>
               buf_len buf = nat n"
proof -
  obtain k where k: "nat n = Suc k" using assms(1) by (cases "nat n") auto
  from draw_seq_Suc[OF assms(3)[unfolded k]] obtain first w1 xs' where
    d: "draw G S w0 = Some (first, w1)" and ds: "draw_seq G S k w1 = Some (xs', w')"
    and xs: "xs = first # xs'" by blast
  from allocate_ok[of n first] assms(1) obtain buf where
    al: "allocate n first = Inr buf" and len: "buf_len buf = nat n"
    and tk: "\<forall>x. takes buf x = fits first x" by auto
  have "0 < buf_len buf" using len k by simp
  moreover have "takes buf first" using tk fits_self by simp
  ultimately obtain buf0 where s0: "setitem buf 0 first = Inr buf0" using setitem_ok by blast
  have "\<exists>buf'. sample_loop G S 1 n \<lparr>world = w1, samples = Some buf0\<rparr> =
            Some (Inr (), \<lparr>world = w', samples = Some buf'\<rparr>) \<and> buf_len buf' = buf_len buf0"
  proof (rule loop_all_fit)
    show "draw_seq G S k (world \<lparr>world = w1, samples = Some buf0\<rparr>) = Some (xs', w')" using ds by simp
    show "samples \<lparr>world = w1, samples = Some buf0\<rparr> = Some buf0" by simp
    show "int (1 + k) = n" using k assms(1) by simp
    show "1 + k \<le> buf_len buf0" using setitem_shape[OF s0] len k by simp
    show "\<forall>x\<in>set xs'. takes buf0 x" using assms(4) xs tk setitem_takes[OF s0] by simp
  qed
  then obtain buf' where
    l: "sample_loop G S 1 n \<lparr>world = w1, samples = Some buf0\<rparr> = Some (Inr (), \<lparr>world = w', samples = Some buf'\<rparr>)"
    and "buf_len buf' = buf_len buf0" by blast
  then have "buf_len buf' = nat n" using setitem_shape[OF s0] len by simp
  moreover have "sample G S n seed st = Some (Inr (Some buf'), \<lparr>world = w', samples = Some buf'\<rparr>)"
    using l by (simp add: sample_first_steps[OF assms(2) d al s0])
  ultimately show ?thesis by blast
qed

theorem sample_returns_n_witness:
  "(1::int) \<le> 2 \<and>
   seed_step G_half None (world (new_sampler (init 0))) = Inr (init 0) \<and>
   draw_seq G_half S_flat (nat 2) (init 0) =
     Some ([Scalar 0, Scalar 2],
           \<lparr>rng = 4, trace = [Proposed (Scalar 0), LogQ (Scalar 0), Uniform (Fin 1) (Fin (1 / 2)), LogP (Scalar 0),
                              Proposed (Scalar 2), LogQ (Scalar 2), Uniform (Fin 1) (Fin (1 / 2)), LogP (Scalar 2)]\<rparr>) \<and>
   fits (Scalar 0) (Scalar 0) \<and> fits (Scalar 0) (Scalar 2) \<and>
   (\<exists>buf. sample G_half S_flat 2 None (new_sampler (init 0)) =
      Some (Inr (Some buf),
        \<lparr>world = \<lparr>rng = 4, trace = [Proposed (Scalar 0), LogQ (Scalar 0), Uniform (Fin 1) (Fin (1 / 2)), LogP (Scalar 0),
                              Proposed (Scalar 2), LogQ (Scalar 2), Uniform (Fin 1) (Fin (1 / 2)), LogP (Scalar 2)]\<rparr>,
         samples = Some buf\<rparr>) \<and> buf_len buf = nat 2)"
proof -
  have h1: "(1::int) \<le> 2" by simp
  have h2: "seed_step G_half None (world (new_sampler (init (0::nat)))) = Inr (init 0)"
    by (simp add: new_sampler_def)
  have h3: "draw_seq G_half S_flat (nat 2) (init 0) =
     Some ([Scalar 0, Scalar 2],
           \<lparr>rng = 4, trace = [Proposed (Scalar 0), LogQ (Scalar 0), Uniform (Fin 1) (Fin (1 / 2)), LogP (Scalar 0),
                              Proposed (Scalar 2), LogQ (Scalar 2), Uniform (Fin 1) (Fin (1 / 2)), LogP (Scalar 2)]\<rparr>)"
    by (simp add: numeral_2_eq_2 draw_S_flat init_def)
  have h4: "\<forall>x\<in>set [Scalar 0, Scalar 2]. fits (hd [Scalar 0, Scalar 2]) x" by simp
  from sample_returns_n[OF h1 h2 h3 h4] h1 h2 h3 show ?thesis by simp
qed

text \<open>
  The claim as written includes \<open>n = 0\<close>: there the call draws once, infers the shape,
  allocates an empty buffer and fails at the store to index 0.
\<close>

theorem sample_zero_fails:
  "sample G_half S_flat 0 None (new_sampler (init 0)) =
     Some (Inl IndexError,
       \<lparr>world = \<lparr>rng = 2, trace = [Proposed (Scalar 0), LogQ (Scalar 0), Uniform (Fin 1) (Fin (1 / 2)), LogP (Scalar 0)]\<rparr>,
        samples = Some (Buf1 [])\<rparr>)"
  by (simp add: sample_def new_sampler_def init_def draw_S_flat allocate_def np_empty1_def store_def)

subsection \<open>C2: a negative count\<close>

lemma attempt_accepted_events:
  assumes "attempt G S w = (x, True, w')"
  shows "\<exists>h t. trace w' = trace w @ [Proposed x, LogQ x, Uniform h t, LogP x] \<and>
               np_ge (propose_logpdf S x) MIN_log \<and> np_lt (np_log t) (target_logpdf S x)"
proof -
  obtain c g1 where p: "propose_func S (rng w) = (c, g1)"
    by (cases "propose_func S (rng w)") auto
  obtain r g2 where q: "random_sample G g1 = (r, g2)"
    by (cases "random_sample G g1") auto
  show ?thesis
    using assms p q
    by (auto simp: attempt_def Let_def log_event_def split: if_splits)
qed

lemma draw_last_events:
  assumes "draw G S w = Some (x, w')"
  shows "\<exists>pre h t. trace w' = trace w @ pre @ [Proposed x, LogQ x, Uniform h t, LogP x] \<and>
                   np_lt (np_log t) (target_logpdf S x)"
proof -
  from draw_returns_retries[OF assms] obtain k where
    k: "attempt G S (retries G S k w) = (x, True, w')" by auto
  obtain pre where pre: "trace (retries G S k w) = trace w @ pre"
    using retries_trace[of G S k w] by blast
  from attempt_accepted_events[OF k] obtain h t where
    "trace w' = trace (retries G S k w) @ [Proposed x, LogQ x, Uniform h t, LogP x]"
    "np_lt (np_log t) (target_logpdf S x)" by blast
  with pre show ?thesis by auto
qed

text \<open>
  Claim C2, as amended. For \<open>n < 0\<close>, \<^verbatim>\<open>sample(n, seed)\<close> fails with a \<^verbatim>\<open>ValueError\<close>, but
  only at the allocation, after the first \<^verbatim>\<open>draw()\<close> has returned: by then the proposal
  function and both log-densities have been called for the value drawn.
  \<^verbatim>\<open>self.samples\<close> is left as it was.
\<close>

theorem sample_negative:
  assumes "n < 0"
    and "seed_step G seed (world st) = Inr w0"
    and "draw G S w0 = Some (first, w1)"
  shows "sample G S n seed st = Some (Inl ValueError, st\<lparr>world := w1\<rparr>) \<and>
         (\<exists>pre h t. trace w1 = trace w0 @ pre @ [Proposed first, LogQ first, Uniform h t, LogP first])"
proof -
  have "sample G S n seed st = Some (Inl ValueError, st\<lparr>world := w1\<rparr>)"
    using assms by (simp add: sample_def allocate_negative)
  moreover from draw_last_events[OF assms(3)]
  have "\<exists>pre h t. trace w1 = trace w0 @ pre @ [Proposed first, LogQ first, Uniform h t, LogP first]"
    by blast
  ultimately show ?thesis by blast
qed

theorem sample_negative_witness:
  "(- 3 :: int) < 0 \<and>
   seed_step G_half (Some 7) (world (new_sampler (init 0))) = Inr \<lparr>rng = 7, trace = [Seeded 7]\<rparr> \<and>
   draw G_half S_flat \<lparr>rng = 7, trace = [Seeded 7]\<rparr> =
     Some (Scalar 7, \<lparr>rng = 9, trace = [Seeded 7, Proposed (Scalar 7), LogQ (Scalar 7),
                                        Uniform (Fin 1) (Fin (1 / 2)), LogP (Scalar 7)]\<rparr>) \<and>
   sample G_half S_flat (- 3) (Some 7) (new_sampler (init 0)) =
     Some (Inl ValueError,
       \<lparr>world = \<lparr>rng = 9, trace = [Seeded 7, Proposed (Scalar 7), LogQ (Scalar 7),
                                  Uniform (Fin 1) (Fin (1 / 2)), LogP (Scalar 7)]\<rparr>,
        samples = None\<rparr>)"
proof -
  have h1: "(- 3 :: int) < 0" by simp
  have h2: "seed_step G_half (Some 7) (world (new_sampler (init (0::nat)))) = Inr \<lparr>rng = 7, trace = [Seeded 7]\<rparr>"
    by (simp add: new_sampler_def init_def G_half_def log_event_def)
  have h3: "draw G_half S_flat \<lparr>rng = 7, trace = [Seeded 7]\<rparr> =
     Some (Scalar 7, \<lparr>rng = 9, trace = [Seeded 7, Proposed (Scalar 7), LogQ (Scalar 7),
                                        Uniform (Fin 1) (Fin (1 / 2)), LogP (Scalar 7)]\<rparr>)"
    by (simp add: draw_S_flat)
  from sample_negative[OF h1 h2 h3] h1 h2 h3 show ?thesis
    by (simp add: new_sampler_def)
qed

text \<open>
  The claim as written says that nothing is drawn before the failure: here the failing
  call has proposed a candidate and evaluated both log-densities on it.
\<close>

theorem sample_negative_draws_first:
  "sample G_half S_flat (- 1) None (new_sampler (init 0)) =
     Some (Inl ValueError,
       \<lparr>world = \<lparr>rng = 2, trace = [Proposed (Scalar 0), LogQ (Scalar 0),
                                  Uniform (Fin 1) (Fin (1 / 2)), LogP (Scalar 0)]\<rparr>,
        samples = None\<rparr>)"
  by (simp add: sample_def new_sampler_def init_def draw_S_flat allocate_def np_empty1_def)

subsection \<open>C7: a later draw of another shape\<close>

lemma sample_loop_done:
  "\<not> int i < n \<Longrightarrow> sample_loop G S i n st = Some (Inr (), st)"
  by (subst sample_loop.simps) simp

lemma sample_loop_step:
  "int i < n \<Longrightarrow> sample_loop G S i n st =
     (case draw G S (world st) of
        None \<Rightarrow> None
      | Some (x, w1) \<Rightarrow>
          (case store i x (samples st) of
             Inl e \<Rightarrow> Some (Inl e, st\<lparr>world := w1\<rparr>)
           | Inr buf \<Rightarrow> sample_loop G S (Suc i) n \<lparr>world = w1, samples = Some buf\<rparr>))"
  by (subst sample_loop.simps) simp

lemma replicate_two: "replicate 2 x = [x, x]"
  by (simp add: numeral_2_eq_2)

lemma draw_S_mixed:
  "draw G_half S_mixed w =
    Some (if rng w = 0 then Seq [1, 2] else Scalar 3,
          \<lparr>rng = Suc (Suc (rng w)),
           trace = trace w @ [Proposed (if rng w = 0 then Seq [1, 2] else Scalar 3),
                              LogQ (if rng w = 0 then Seq [1, 2] else Scalar 3),
                              Uniform (Fin 1) (Fin (1 / 2)),
                              LogP (if rng w = 0 then Seq [1, 2] else Scalar 3)]\<rparr>)"
  by (subst draw_flat_density) (simp_all add: S_mixed_def)

lemma draw_S_ragged:
  "draw G_half S_ragged w =
    Some (if rng w = 0 then Scalar 1 else Seq [1, 2],
          \<lparr>rng = Suc (Suc (rng w)),
           trace = trace w @ [Proposed (if rng w = 0 then Scalar 1 else Seq [1, 2]),
                              LogQ (if rng w = 0 then Scalar 1 else Seq [1, 2]),
                              Uniform (Fin 1) (Fin (1 / 2)),
                              LogP (if rng w = 0 then Scalar 1 else Seq [1, 2])]\<rparr>)"
  by (subst draw_flat_density) (simp_all add: S_ragged_def)

text \<open>
  Claim C7, as amended. In a batch with \<open>n \<ge> 2\<close>: when the draw for index \<open>m \<ge> 1\<close> is the
  first that NumPy cannot assign to a row of the buffer shaped by the first draw (a
  list after a float; a list whose length is neither that of the first nor one), the
  call fails there with a \<^verbatim>\<open>ValueError\<close>, makes no further draw and returns no buffer.
\<close>

theorem sample_misfit_fails:
  assumes "seed_step G seed (world st) = Inr w0"
    and "draw_seq G S (Suc m) w0 = Some (xs, w')"
    and "0 < m"
    and "int m < n"
    and "\<forall>j<m. fits (xs ! 0) (xs ! j)"
    and "\<not> fits (xs ! 0) (xs ! m)"
  shows "\<exists>buf. sample G S n seed st = Some (Inl ValueError, \<lparr>world = w', samples = Some buf\<rparr>)"
proof -
  obtain k where k: "m = Suc k" using assms(3) by (cases m) auto
  from draw_seq_Suc[OF assms(2)] obtain first w1 xs' where
    d: "draw G S w0 = Some (first, w1)" and ds: "draw_seq G S m w1 = Some (xs', w')"
    and xs: "xs = first # xs'" by blast
  have n: "0 \<le> n" "1 < n" using assms(3,4) by simp_all
  from allocate_ok[of n first] n obtain buf where
    al: "allocate n first = Inr buf" and len: "buf_len buf = nat n"
    and tk: "\<forall>x. takes buf x = fits first x" by auto
  have "0 < buf_len buf" using len n by simp
  moreover have "takes buf first" using tk fits_self by simp
  ultimately obtain buf0 where s0: "setitem buf 0 first = Inr buf0" using setitem_ok by blast
  have tk0: "\<forall>x. takes buf0 x = fits first x" using tk setitem_takes[OF s0] by simp
  have "\<exists>buf'. sample_loop G S 1 n \<lparr>world = w1, samples = Some buf0\<rparr> =
            Some (Inl ValueError, \<lparr>world = w', samples = Some buf'\<rparr>)"
  proof (rule loop_misfit)
    show "draw_seq G S (Suc k) (world \<lparr>world = w1, samples = Some buf0\<rparr>) = Some (xs', w')"
      using ds k by simp
    show "samples \<lparr>world = w1, samples = Some buf0\<rparr> = Some buf0" by simp
    show "int (1 + k) < n" using k assms(4) by simp
    show "1 + k < buf_len buf0" using setitem_shape[OF s0] len k assms(4) by simp
    show "\<forall>j<k. takes buf0 (xs' ! j)"
    proof (intro allI impI)
      fix j assume "j < k"
      then have "fits (xs ! 0) (xs ! Suc j)" using assms(5) k by simp
      then show "takes buf0 (xs' ! j)" using xs tk0 by simp
    qed
    show "\<not> takes buf0 (xs' ! k)" using assms(6) xs k tk0 by simp
  qed
  then obtain buf' where
    l: "sample_loop G S 1 n \<lparr>world = w1, samples = Some buf0\<rparr> = Some (Inl ValueError, \<lparr>world = w', samples = Some buf'\<rparr>)"
    by blast
  have "sample G S n seed st = Some (Inl ValueError, \<lparr>world = w', samples = Some buf'\<rparr>)"
    using l by (simp add: sample_first_steps[OF assms(1) d al s0])
  then show ?thesis by blast
qed

theorem sample_misfit_fails_witness:
  "seed_step G_half None (world (new_sampler (init 0))) = Inr (init 0) \<and>
   draw_seq G_half S_ragged (Suc 1) (init 0) =
     Some ([Scalar 1, Seq [1, 2]],
           \<lparr>rng = 4, trace = [Proposed (Scalar 1), LogQ (Scalar 1), Uniform (Fin 1) (Fin (1 / 2)), LogP (Scalar 1),
                              Proposed (Seq [1, 2]), LogQ (Seq [1, 2]), Uniform (Fin 1) (Fin (1 / 2)), LogP (Seq [1, 2])]\<rparr>) \<and>
   (0::nat) < 1 \<and> int 1 < 3 \<and>
   fits (Scalar 1) (Scalar 1) \<and> \<not> fits (Scalar 1) (Seq [1, 2]) \<and>
   (\<exists>buf. sample G_half S_ragged 3 None (new_sampler (init 0)) =
      Some (Inl ValueError,
        \<lparr>world = \<lparr>rng = 4, trace = [Proposed (Scalar 1), LogQ (Scalar 1), Uniform (Fin 1) (Fin (1 / 2)), LogP (Scalar 1),
                              Proposed (Seq [1, 2]), LogQ (Seq [1, 2]), Uniform (Fin 1) (Fin (1 / 2)), LogP (Seq [1, 2])]\<rparr>,
         samples = Some buf\<rparr>))"
proof -
  have h1: "seed_step G_half None (world (new_sampler (init (0::nat)))) = Inr (init 0)"
    by (simp add: new_sampler_def)
  have h2: "draw_seq G_half S_ragged (Suc 1) (init 0) =
     Some ([Scalar 1, Seq [1, 2]],
           \<lparr>rng = 4, trace = [Proposed (Scalar 1), LogQ (Scalar 1), Uniform (Fin 1) (Fin (1 / 2)), LogP (Scalar 1),
                              Proposed (Seq [1, 2]), LogQ (Seq [1, 2]), Uniform (Fin 1) (Fin (1 / 2)), LogP (Seq [1, 2])]\<rparr>)"
    by (simp add: draw_S_ragged init_def)
  have h3: "(0::nat) < 1" by simp
  have h4: "int 1 < 3" by simp
  have h5: "\<forall>j<1. fits ([Scalar 1, Seq [1, 2]] ! 0) ([Scalar 1, Seq [1, 2]] ! j)" by simp
  have h6: "\<not> fits ([Scalar 1, Seq [1, 2]] ! 0) ([Scalar 1, Seq [1, 2]] ! 1)" by simp
  from sample_misfit_fails[OF h1 h2 h3 h4 h5 h6] h1 h2 show ?thesis by simp
qed

text \<open>
  The claim as written lets every disagreement fail the batch. NumPy broadcasts a
  float over a row: after a first draw of length 2, a later float fills its row twice
  over and the call returns the buffer.
\<close>

theorem sample_broadcasts_scalar:
  "py_len (Seq [1, 2]) \<noteq> py_len (Scalar 3) \<and>
   sample G_half S_mixed 2 None (new_sampler (init 0)) =
     Some (Inr (Some (Buf2 2 [Some [1, 2], Some [3, 3]])),
       \<lparr>world = \<lparr>rng = 4, trace = [Proposed (Seq [1, 2]), LogQ (Seq [1, 2]), Uniform (Fin 1) (Fin (1 / 2)), LogP (Seq [1, 2]),
                                  Proposed (Scalar 3), LogQ (Scalar 3), Uniform (Fin 1) (Fin (1 / 2)), LogP (Scalar 3)]\<rparr>,
        samples = Some (Buf2 2 [Some [1, 2], Some [3, 3]])\<rparr>)"
  by (simp add: sample_def new_sampler_def init_def draw_S_mixed allocate_def np_empty2_def store_def
      sample_loop_step sample_loop_done replicate_two)

subsection \<open>C6: the shape fixed by the first draw\<close>

lemma loop_keeps_shape:
  "sample_loop G S i n st = Some (res, st') \<Longrightarrow> samples st = Some buf \<Longrightarrow>
   \<exists>buf'. samples st' = Some buf' \<and> shape buf' = shape buf \<and> (\<forall>j<i. row buf' j = row buf j)"
proof (induction G S i n st arbitrary: buf rule: sample_loop.induct)
  case (1 G S i n st)
  show ?case
  proof (cases "int i < n")
    case False
    with "1.prems" show ?thesis by (simp add: sample_loop_done)
  next
    case True
    with "1.prems"(1) obtain x w1 where d: "draw G S (world st) = Some (x, w1)"
      by (auto simp: sample_loop_step split: option.splits)
    show ?thesis
    proof (cases "setitem buf i x")
      case (Inl e)
      with "1.prems" True d show ?thesis
        by (auto simp: sample_loop_step store_def)
    next
      case (Inr b1)
      have st1: "store i x (samples st) = Inr b1" using Inr "1.prems"(2) by (simp add: store_def)
      have l: "sample_loop G S (Suc i) n \<lparr>world = w1, samples = Some b1\<rparr> = Some (res, st')"
        using "1.prems"(1) True d st1 by (simp add: sample_loop_step)
      from "1.IH"[OF True d refl st1 l, of b1] obtain buf' where
        b: "samples st' = Some buf'" "shape buf' = shape b1" "\<forall>j<Suc i. row buf' j = row b1 j"
        by auto
      have "\<forall>j<i. row buf' j = row buf j"
        using b(3) setitem_row_other[OF Inr] by simp
      with b setitem_shape[OF Inr] show ?thesis by simp
    qed
  qed
qed

lemma first_store_row:
  "allocate n first = Inr buf \<Longrightarrow> setitem buf 0 first = Inr buf0 \<Longrightarrow>
   row buf0 0 = Some (case first of Scalar c \<Rightarrow> [c] | Seq xs \<Rightarrow> xs)"
  by (cases first) (auto simp: allocate_def np_empty1_def np_empty2_def split: if_splits)

text \<open>
  Claim C6. For \<open>n \<ge> 1\<close>: when the first draw is a float the buffer allocated has shape
  \<open>(n,)\<close>, when it is a sequence of length \<open>d\<close> the buffer has shape \<open>(n, d)\<close>, and the first
  draw sits at index 0. This is the buffer \<^verbatim>\<open>self.samples\<close> holds when the call ends,
  and the one it returns when it returns.
\<close>

theorem first_draw_fixes_shape:
  assumes "1 \<le> n"
    and "seed_step G seed (world st) = Inr w0"
    and "draw G S w0 = Some (first, w1)"
    and "sample G S n seed st = Some (res, st')"
  shows "\<exists>buf. samples st' = Some buf \<and>
           shape buf = (case first of Scalar c \<Rightarrow> [nat n] | Seq xs \<Rightarrow> [nat n, length xs]) \<and>
           row buf 0 = Some (case first of Scalar c \<Rightarrow> [c] | Seq xs \<Rightarrow> xs) \<and>
           (res = Inr (Some buf) \<or> (\<exists>e. res = Inl e))"
proof -
  from allocate_ok[of n first] assms(1) obtain buf where
    al: "allocate n first = Inr buf" and len: "buf_len buf = nat n"
    and tk: "\<forall>x. takes buf x = fits first x"
    and sh: "shape buf = (case first of Scalar c \<Rightarrow> [nat n] | Seq xs \<Rightarrow> [nat n, length xs])" by auto
  have "0 < buf_len buf" using len assms(1) by simp
  moreover have "takes buf first" using tk fits_self by simp
  ultimately obtain buf0 where s0: "setitem buf 0 first = Inr buf0" using setitem_ok by blast
  note eq = sample_first_steps[OF assms(2,3) al s0]
  from assms(4) eq obtain r where
    l: "sample_loop G S 1 n \<lparr>world = w1, samples = Some buf0\<rparr> = Some (r, st')"
    and r: "res = (case r of Inl e \<Rightarrow> Inl e | Inr u \<Rightarrow> Inr (samples st'))"
    by (auto split: option.splits sum.splits)
  from loop_keeps_shape[OF l, of buf0] obtain buf' where
    b: "samples st' = Some buf'" "shape buf' = shape buf0" "\<forall>j<1. row buf' j = row buf0 j" by auto
  have "shape buf' = (case first of Scalar c \<Rightarrow> [nat n] | Seq xs \<Rightarrow> [nat n, length xs])"
    using b(2) setitem_shape[OF s0] sh by simp
  moreover have "row buf' 0 = Some (case first of Scalar c \<Rightarrow> [c] | Seq xs \<Rightarrow> xs)"
    using b(3) first_store_row[OF al s0] by simp
  moreover have "res = Inr (Some buf') \<or> (\<exists>e. res = Inl e)"
    using r b(1) by (cases r) auto
  ultimately show ?thesis using b(1) by blast
qed

theorem first_draw_fixes_shape_witness:
  "(1::int) \<le> 2 \<and>
   seed_step G_half None (world (new_sampler (init 0))) = Inr (init 0) \<and>
   draw G_half S_mixed (init 0) =
     Some (Seq [1, 2], \<lparr>rng = 2, trace = [Proposed (Seq [1, 2]), LogQ (Seq [1, 2]),
                                          Uniform (Fin 1) (Fin (1 / 2)), LogP (Seq [1, 2])]\<rparr>) \<and>
   sample G_half S_mixed 2 None (new_sampler (init 0)) =
     Some (Inr (Some (Buf2 2 [Some [1, 2], Some [3, 3]])),
       \<lparr>world = \<lparr>rng = 4, trace = [Proposed (Seq [1, 2]), LogQ (Seq [1, 2]), Uniform (Fin 1) (Fin (1 / 2)), LogP (Seq [1, 2]),
                                  Proposed (Scalar 3), LogQ (Scalar 3), Uniform (Fin 1) (Fin (1 / 2)), LogP (Scalar 3)]\<rparr>,
        samples = Some (Buf2 2 [Some [1, 2], Some [3, 3]])\<rparr>) \<and>
   shape (Buf2 2 [Some [1, 2], Some [3, 3]]) = [nat 2, length [1 :: real, 2]] \<and>
   row (Buf2 2 [Some [1, 2], Some [3, 3]]) 0 = Some [1, 2]"
proof -
  have h1: "(1::int) \<le> 2" by simp
  have h2: "seed_step G_half None (world (new_sampler (init (0::nat)))) = Inr (init 0)"
    by (simp add: new_sampler_def)
  have h3: "draw G_half S_mixed (init 0) =
     Some (Seq [1, 2], \<lparr>rng = 2, trace = [Proposed (Seq [1, 2]), LogQ (Seq [1, 2]),
                                          Uniform (Fin 1) (Fin (1 / 2)), LogP (Seq [1, 2])]\<rparr>)"
    by (simp add: draw_S_mixed init_def)
  have h4: "sample G_half S_mixed 2 None (new_sampler (init 0)) =
     Some (Inr (Some (Buf2 2 [Some [1, 2], Some [3, 3]])),
       \<lparr>world = \<lparr>rng = 4, trace = [Proposed (Seq [1, 2]), LogQ (Seq [1, 2]), Uniform (Fin 1) (Fin (1 / 2)), LogP (Seq [1, 2]),
                                  Proposed (Scalar 3), LogQ (Scalar 3), Uniform (Fin 1) (Fin (1 / 2)), LogP (Scalar 3)]\<rparr>,
        samples = Some (Buf2 2 [Some [1, 2], Some [3, 3]])\<rparr>)"
    by (simp add: sample_def new_sampler_def init_def draw_S_mixed allocate_def np_empty2_def store_def
      sample_loop_step sample_loop_done replicate_two)
  from first_draw_fixes_shape[OF h1 h2 h3 h4] h1 h2 h3 h4 show ?thesis by simp
qed

subsection \<open>C5: what is written into the buffer\<close>





lemma setitem_row_written:
  "setitem buf i x = Inr buf' \<Longrightarrow> \<exists>r. row buf' i = Some r \<and> set r \<subseteq> set (entries x)"
proof (cases buf)
  case (Buf1 cells)
  assume "setitem buf i x = Inr buf'"
  with Buf1 show ?thesis by (cases x) (auto split: if_splits)
next
  case (Buf2 d rows)
  assume s: "setitem buf i x = Inr buf'"
  show ?thesis
  proof (cases x)
    case (Scalar c)
    with s Buf2 show ?thesis by (auto split: if_splits)
  next
    case (Seq xs)
    have "length xs = 1 \<Longrightarrow> hd xs \<in> set xs" by (cases xs) auto
    with s Buf2 Seq show ?thesis by (auto split: if_splits)
  qed
qed






subsection \<open>C10: the stored buffer after a failed call\<close>

lemma loop_fail:
  "sample_loop G S i n st = Some (Inl e, st') \<Longrightarrow> samples st = Some buf \<Longrightarrow>
   n \<le> int (buf_len buf) \<Longrightarrow> (\<forall>j. i \<le> j \<longrightarrow> row buf j = None) \<Longrightarrow>
   (\<forall>j<i. row buf j \<noteq> None) \<Longrightarrow>
   \<exists>buf' m. samples st' = Some buf' \<and> shape buf' = shape buf \<and> buf_len buf' = buf_len buf \<and>
     e = ValueError \<and> i \<le> m \<and> int m < n \<and>
     (\<forall>j<m. row buf' j \<noteq> None) \<and> (\<forall>j. m \<le> j \<longrightarrow> row buf' j = None)"
proof (induction G S i n st arbitrary: buf rule: sample_loop.induct)
  case (1 G S i n st)
  show ?case
  proof (cases "int i < n")
    case False
    with "1.prems"(1) show ?thesis by (simp add: sample_loop_done)
  next
    case True
    with "1.prems"(1) obtain x w1 where d: "draw G S (world st) = Some (x, w1)"
      by (auto simp: sample_loop_step split: option.splits)
    have inr: "i < buf_len buf" using True "1.prems"(3) by simp
    show ?thesis
    proof (cases "setitem buf i x")
      case (Inl e')
      have "e' = ValueError"
      proof (cases "takes buf x")
        case True
        with setitem_ok[OF inr True] Inl show ?thesis by simp
      next
        case False
        with setitem_misfit[OF inr False] Inl show ?thesis by simp
      qed
      moreover have "e = e'" "st' = st\<lparr>world := w1\<rparr>"
        using "1.prems"(1,2) True d Inl by (auto simp: sample_loop_step store_def)
      ultimately show ?thesis
        using "1.prems"(2,4,5) True by auto
    next
      case (Inr b1)
      have st1: "store i x (samples st) = Inr b1" using Inr "1.prems"(2) by (simp add: store_def)
      have l: "sample_loop G S (Suc i) n \<lparr>world = w1, samples = Some b1\<rparr> = Some (Inl e, st')"
        using "1.prems"(1) True d st1 by (simp add: sample_loop_step)
      from setitem_row_written[OF Inr] obtain r where r: "row b1 i = Some r" by blast
      have a: "n \<le> int (buf_len b1)" using "1.prems"(3) setitem_shape[OF Inr] by simp
      have b: "\<forall>j. Suc i \<le> j \<longrightarrow> row b1 j = None"
        using "1.prems"(4) setitem_row_other[OF Inr] by auto
      have c: "\<forall>j<Suc i. row b1 j \<noteq> None"
      proof (intro allI impI)
        fix j assume "j < Suc i"
        then show "row b1 j \<noteq> None"
          using r "1.prems"(5) setitem_row_other[OF Inr, of j] by (cases "j = i") auto
      qed
      from "1.IH"[OF True d refl st1 l _ a b c] obtain buf' m where
        "samples st' = Some buf'" "shape buf' = shape b1" "buf_len buf' = buf_len b1"
        "e = ValueError" "Suc i \<le> m" "int m < n"
        "\<forall>j<m. row buf' j \<noteq> None" "\<forall>j. m \<le> j \<longrightarrow> row buf' j = None"
        by auto
      then show ?thesis using setitem_shape[OF Inr] by (intro exI[of _ buf'] exI[of _ m]) auto
    qed
  qed
qed

lemma sample_forgets:
  assumes "0 \<le> n" and "seed_step G seed (world st) = Inr w0"
  shows "sample G S n seed (st\<lparr>samples := old\<rparr>) = sample G S n seed st"
proof (cases "draw G S w0")
  case None
  with assms(2) show ?thesis by (simp add: sample_def)
next
  case (Some p)
  obtain first w1 where p: "p = (first, w1)" by (cases p) auto
  from allocate_ok[OF assms(1), of first] obtain buf where "allocate n first = Inr buf" by blast
  with assms(2) Some p show ?thesis by (simp add: sample_def)
qed

text \<open>
  Claim C10, as amended. When a call that got past seeding, with \<open>n \<ge> 0\<close>, fails, it
  fails at a store into the buffer it has just allocated: at index 0 with an
  \<^verbatim>\<open>IndexError\<close> when \<open>n = 0\<close>, or at a later index \<open>m\<close> with a \<^verbatim>\<open>ValueError\<close>. By then
  \<^verbatim>\<open>self.samples\<close> is the new buffer of length \<open>n\<close>, filled below \<open>m\<close> and unwritten from
  \<open>m\<close> on, and the state the call leaves is the same whatever buffer was stored before.
\<close>

theorem failed_store_replaces_buffer:
  assumes "0 \<le> n"
    and "seed_step G seed (world st) = Inr w0"
    and "sample G S n seed st = Some (Inl e, st')"
  shows "\<exists>buf m. samples st' = Some buf \<and> buf_len buf = nat n \<and>
           ((n = 0 \<and> e = IndexError \<and> m = 0) \<or> (1 \<le> m \<and> int m < n \<and> e = ValueError)) \<and>
           (\<forall>j<m. row buf j \<noteq> None) \<and> (\<forall>j. m \<le> j \<longrightarrow> row buf j = None) \<and>
           (\<forall>old. sample G S n seed (st\<lparr>samples := old\<rparr>) = Some (Inl e, st'))"
proof -
  have forget: "\<forall>old. sample G S n seed (st\<lparr>samples := old\<rparr>) = Some (Inl e, st')"
    using sample_forgets[OF assms(1,2)] assms(3) by simp
  from assms(2,3) obtain first w1 where d: "draw G S w0 = Some (first, w1)"
    by (cases "draw G S w0") (auto simp: sample_def)
  from allocate_ok[OF assms(1), of first] obtain buf where
    al: "allocate n first = Inr buf" and len: "buf_len buf = nat n"
    and tk: "\<forall>x. takes buf x = fits first x" and nn: "\<forall>j. row buf j = None" by blast
  show ?thesis
  proof (cases "n = 0")
    case True
    then have "setitem buf 0 first = Inl IndexError"
      using len setitem_cases[of buf 0 first] by simp
    with assms(2,3) d al have "e = IndexError" "st' = \<lparr>world = w1, samples = Some buf\<rparr>"
      by (auto simp: sample_def store_def)
    with True len nn forget show ?thesis
      by (intro exI[of _ buf] exI[of _ 0]) auto
  next
    case False
    with assms(1) have pos: "0 < n" by simp
    then have "0 < buf_len buf" using len by simp
    moreover have "takes buf first" using tk fits_self by simp
    ultimately obtain buf0 where s0: "setitem buf 0 first = Inr buf0" using setitem_ok by blast
    from assms(3) sample_first_steps[OF assms(2) d al s0]
    have l: "sample_loop G S 1 n \<lparr>world = w1, samples = Some buf0\<rparr> = Some (Inl e, st')"
      by (auto split: option.splits sum.splits)
    from setitem_row_written[OF s0] obtain r where r: "row buf0 0 = Some r" by blast
    have a: "n \<le> int (buf_len buf0)" using setitem_shape[OF s0] len pos by simp
    have b: "\<forall>j. 1 \<le> j \<longrightarrow> row buf0 j = None"
      using nn setitem_row_other[OF s0] by auto
    have c: "\<forall>j<1. row buf0 j \<noteq> None" using r by simp
    from loop_fail[OF l _ a b c] obtain buf' m where
      "samples st' = Some buf'" "buf_len buf' = buf_len buf0"
      "e = ValueError" "1 \<le> m" "int m < n"
      "\<forall>j<m. row buf' j \<noteq> None" "\<forall>j. m \<le> j \<longrightarrow> row buf' j = None"
      by auto
    then show ?thesis
      using forget setitem_shape[OF s0] len by (intro exI[of _ buf'] exI[of _ m]) auto
  qed
qed

theorem failed_store_replaces_buffer_witness:
  "(0::int) \<le> 0 \<and>
   seed_step G_half None (world \<lparr>world = init 0, samples = Some (Buf1 [Some 9])\<rparr>) = Inr (init 0) \<and>
   sample G_half S_flat 0 None \<lparr>world = init 0, samples = Some (Buf1 [Some 9])\<rparr> =
     Some (Inl IndexError,
       \<lparr>world = \<lparr>rng = 2, trace = [Proposed (Scalar 0), LogQ (Scalar 0), Uniform (Fin 1) (Fin (1 / 2)), LogP (Scalar 0)]\<rparr>,
        samples = Some (Buf1 [])\<rparr>) \<and>
   sample G_half S_flat 0 None (\<lparr>world = init 0, samples = Some (Buf1 [Some 9])\<rparr>\<lparr>samples := None\<rparr>) =
     Some (Inl IndexError,
       \<lparr>world = \<lparr>rng = 2, trace = [Proposed (Scalar 0), LogQ (Scalar 0), Uniform (Fin 1) (Fin (1 / 2)), LogP (Scalar 0)]\<rparr>,
        samples = Some (Buf1 [])\<rparr>)"
proof -
  have h1: "(0::int) \<le> 0" by simp
  have h2: "seed_step G_half None (world \<lparr>world = init (0::nat), samples = Some (Buf1 [Some 9])\<rparr>) = Inr (init 0)"
    by simp
  have h3: "sample G_half S_flat 0 None \<lparr>world = init 0, samples = Some (Buf1 [Some 9])\<rparr> =
     Some (Inl IndexError,
       \<lparr>world = \<lparr>rng = 2, trace = [Proposed (Scalar 0), LogQ (Scalar 0), Uniform (Fin 1) (Fin (1 / 2)), LogP (Scalar 0)]\<rparr>,
        samples = Some (Buf1 [])\<rparr>)"
    by (simp add: sample_def init_def draw_S_flat allocate_def np_empty1_def store_def)
  from failed_store_replaces_buffer[OF h1 h2 h3]
  have "\<forall>old. sample G_half S_flat 0 None (\<lparr>world = init 0, samples = Some (Buf1 [Some 9])\<rparr>\<lparr>samples := old\<rparr>) =
     Some (Inl IndexError,
       \<lparr>world = \<lparr>rng = 2, trace = [Proposed (Scalar 0), LogQ (Scalar 0), Uniform (Fin 1) (Fin (1 / 2)), LogP (Scalar 0)]\<rparr>,
        samples = Some (Buf1 [])\<rparr>)"
    by (elim exE conjE)
  then have "sample G_half S_flat 0 None (\<lparr>world = init 0, samples = Some (Buf1 [Some 9])\<rparr>\<lparr>samples := None\<rparr>) =
     Some (Inl IndexError,
       \<lparr>world = \<lparr>rng = 2, trace = [Proposed (Scalar 0), LogQ (Scalar 0), Uniform (Fin 1) (Fin (1 / 2)), LogP (Scalar 0)]\<rparr>,
        samples = Some (Buf1 [])\<rparr>)"
    by (rule spec)
  with h1 h2 h3 show ?thesis by (intro conjI)
qed

text \<open>
  The claim as written covers every call that fails partway. A call with a negative
  count fails after its first draw, at the allocation, and the buffer stored before is
  still there.
\<close>

theorem failed_allocation_keeps_buffer:
  "sample G_half S_flat (- 1) None \<lparr>world = init 0, samples = Some (Buf1 [Some 9])\<rparr> =
     Some (Inl ValueError,
       \<lparr>world = \<lparr>rng = 2, trace = [Proposed (Scalar 0), LogQ (Scalar 0), Uniform (Fin 1) (Fin (1 / 2)), LogP (Scalar 0)]\<rparr>,
        samples = Some (Buf1 [Some 9])\<rparr>)"
  by (simp add: sample_def init_def draw_S_flat allocate_def np_empty1_def)

subsection \<open>C9: the same seed gives the same batch\<close>

lemma seedings_append [simp]: "seedings (a @ b) = seedings a @ seedings b"
  by (induction a rule: seedings.induct) simp_all

lemma shift_simps [simp]:
  "rng (shift p w) = rng w" "trace (shift p w) = p @ trace w"
  by (simp_all add: shift_def)

lemma attempt_shift:
  "attempt G S (shift p w) = (case attempt G S w of (x, a, w') \<Rightarrow> (x, a, shift p w'))"
  by (simp add: attempt_def Let_def log_event_def shift_def split: prod.splits)

lemma attempt_shift_accepted:
  "fst (snd (attempt G S (shift p w))) = fst (snd (attempt G S w))"
  by (simp add: attempt_shift split: prod.splits)

lemma retries_shift: "retries G S k (shift p w) = shift p (retries G S k w)"
proof (induction k arbitrary: w)
  case 0
  show ?case by simp
next
  case (Suc k)
  have "snd (snd (attempt G S (shift p w))) = shift p (snd (snd (attempt G S w)))"
    by (simp add: attempt_shift split: prod.splits)
  with Suc show ?case by simp
qed

lemma draw_Some_iff:
  "draw G S w = Some (x, w') \<longleftrightarrow>
     (\<exists>k. (\<forall>j<k. \<not> fst (snd (attempt G S (retries G S j w)))) \<and>
          attempt G S (retries G S k w) = (x, True, w'))"
proof
  assume "draw G S w = Some (x, w')"
  from draw_returns_retries[OF this] show "\<exists>k. (\<forall>j<k. \<not> fst (snd (attempt G S (retries G S j w)))) \<and>
          attempt G S (retries G S k w) = (x, True, w')" by simp
next
  assume "\<exists>k. (\<forall>j<k. \<not> fst (snd (attempt G S (retries G S j w)))) \<and>
          attempt G S (retries G S k w) = (x, True, w')"
  then obtain k where k: "\<forall>j<k. \<not> fst (snd (attempt G S (retries G S j w)))"
    "attempt G S (retries G S k w) = (x, True, w')" by blast
  have "draw G S w = draw G S (retries G S k w)" using k(1) by (rule draw_after_retries)
  also have "\<dots> = Some (x, w')" using k(2) by (subst draw_unfold) simp
  finally show "draw G S w = Some (x, w')" .
qed

lemma draw_shift_Some:
  assumes "draw G S w = Some (x, w')"
  shows "draw G S (shift p w) = Some (x, shift p w')"
proof -
  from assms obtain k where k: "\<forall>j<k. \<not> fst (snd (attempt G S (retries G S j w)))"
    "attempt G S (retries G S k w) = (x, True, w')" unfolding draw_Some_iff by blast
  have "\<forall>j<k. \<not> fst (snd (attempt G S (retries G S j (shift p w))))"
    using k(1) by (simp add: retries_shift attempt_shift_accepted)
  moreover have "attempt G S (retries G S k (shift p w)) = (x, True, shift p w')"
    using k(2) by (simp add: retries_shift attempt_shift)
  ultimately show ?thesis unfolding draw_Some_iff by blast
qed

lemma draw_shift_None:
  assumes "draw G S w = None"
  shows "draw G S (shift p w) = None"
proof (rule ccontr)
  assume "draw G S (shift p w) \<noteq> None"
  then obtain x v where "draw G S (shift p w) = Some (x, v)" by auto
  then obtain k where k: "\<forall>j<k. \<not> fst (snd (attempt G S (retries G S j (shift p w))))"
    "attempt G S (retries G S k (shift p w)) = (x, True, v)" unfolding draw_Some_iff by blast
  obtain y a u where att: "attempt G S (retries G S k w) = (y, a, u)"
    by (cases "attempt G S (retries G S k w)") auto
  have "\<forall>j<k. \<not> fst (snd (attempt G S (retries G S j w)))"
    using k(1) by (simp add: retries_shift attempt_shift_accepted)
  moreover have "attempt G S (retries G S k w) = (x, True, u)"
    using k(2) att by (simp add: retries_shift attempt_shift)
  ultimately have "draw G S w = Some (x, u)" unfolding draw_Some_iff by blast
  with assms show False by simp
qed

lemma draw_shift:
  "draw G S (shift p w) = map_option (\<lambda>(x, w'). (x, shift p w')) (draw G S w)"
proof (cases "draw G S w")
  case None
  then show ?thesis by (simp add: draw_shift_None)
next
  case (Some r)
  then show ?thesis by (cases r) (simp add: draw_shift_Some)
qed

lemma loop_shift:
  "sample_loop G S i n (st\<lparr>world := shift p (world st)\<rparr>) =
     map_option (\<lambda>(r, s). (r, s\<lparr>world := shift p (world s)\<rparr>)) (sample_loop G S i n st)"
proof (induction G S i n st rule: sample_loop.induct)
  case (1 G S i n st)
  show ?case
  proof (cases "int i < n")
    case False
    then show ?thesis by (simp add: sample_loop_done)
  next
    case True
    show ?thesis
    proof (cases "draw G S (world st)")
      case None
      with True show ?thesis by (simp add: sample_loop_step draw_shift)
    next
      case (Some r)
      obtain x w1 where r: "r = (x, w1)" by (cases r) auto
      show ?thesis
      proof (cases "store i x (samples st)")
        case (Inl e)
        with True Some r show ?thesis by (simp add: sample_loop_step draw_shift)
      next
        case (Inr b)
        from "1.IH"[OF True Some[unfolded r] refl Inr]
        show ?thesis using True Some r Inr by (simp add: sample_loop_step draw_shift)
      qed
    qed
  qed
qed

lemma sample_shift:
  "sample G S n None (st\<lparr>world := shift p (world st)\<rparr>) =
     map_option (\<lambda>(r, s). (r, s\<lparr>world := shift p (world s)\<rparr>)) (sample G S n None st)"
proof (cases "draw G S (world st)")
  case None
  then show ?thesis by (simp add: sample_def draw_shift)
next
  case (Some r)
  obtain first w1 where r: "r = (first, w1)" by (cases r) auto
  show ?thesis
  proof (cases "allocate n first")
    case (Inl e)
    with Some r show ?thesis by (simp add: sample_def draw_shift)
  next
    case (Inr buf)
    show ?thesis
    proof (cases "store 0 first (Some buf)")
      case (Inl e)
      with Some r Inr show ?thesis by (simp add: sample_def draw_shift)
    next
      case b0: (Inr buf0)
      have "sample_loop G S 1 n \<lparr>world = shift p w1, samples = Some buf0\<rparr> =
          map_option (\<lambda>(r, s). (r, s\<lparr>world := shift p (world s)\<rparr>))
            (sample_loop G S 1 n \<lparr>world = w1, samples = Some buf0\<rparr>)"
        using loop_shift[where G = G and S = S and i = 1 and n = n and p = p
            and st = "\<lparr>world = w1, samples = Some buf0\<rparr>"] by simp
      with Some r Inr b0 show ?thesis
        by (simp add: sample_def draw_shift split: option.splits sum.splits)
    qed
  qed
qed

lemma sample_seeded:
  "np_random_seed G seed = Inr g \<Longrightarrow>
   sample G S n (Some seed) st =
     sample G S n None (st\<lparr>world := \<lparr>rng = g, trace = trace (world st) @ [Seeded seed]\<rparr>\<rparr>)"
proof -
  assume a: "np_random_seed G seed = Inr g"
  obtain g0 tr where w: "world st = \<lparr>rng = g0, trace = tr\<rparr>"
    by (cases "world st") auto
  show ?thesis
    using a w by (simp add: sample_def log_event_def split: option.splits sum.splits prod.splits)
qed

lemma sample_world_forgets:
  "map_option (\<lambda>(r, s). (r, world s)) (sample G S n None (st\<lparr>samples := b\<rparr>)) =
   map_option (\<lambda>(r, s). (r, world s)) (sample G S n None st)"
  by (simp add: sample_def split: option.splits sum.splits prod.splits)

lemma sample_seeded_canonical:
  assumes "np_random_seed G seed = Inr g"
  shows "map_option (\<lambda>(r, s). (r, world s)) (sample G S n (Some seed) st) =
         map_option (\<lambda>(r, s). (r, shift (trace (world st)) (world s)))
           (sample G S n None \<lparr>world = \<lparr>rng = g, trace = [Seeded seed]\<rparr>, samples = None\<rparr>)"
proof -
  let ?W = "\<lparr>rng = g, trace = [Seeded seed]\<rparr>"
  let ?p = "trace (world st)"
  have e: "st\<lparr>world := \<lparr>rng = g, trace = ?p @ [Seeded seed]\<rparr>\<rparr> =
           (st\<lparr>world := ?W\<rparr>)\<lparr>world := shift ?p (world (st\<lparr>world := ?W\<rparr>))\<rparr>"
    by (simp add: shift_def)
  have "sample G S n (Some seed) st =
        map_option (\<lambda>(r, s). (r, s\<lparr>world := shift ?p (world s)\<rparr>)) (sample G S n None (st\<lparr>world := ?W\<rparr>))"
    unfolding sample_seeded[OF assms] e by (rule sample_shift)
  then have "map_option (\<lambda>(r, s). (r, world s)) (sample G S n (Some seed) st) =
        map_option (\<lambda>(r, w). (r, shift ?p w))
          (map_option (\<lambda>(r, s). (r, world s)) (sample G S n None (st\<lparr>world := ?W\<rparr>)))"
    by (simp add: option.map_comp comp_def split_def)
  also have "st\<lparr>world := ?W\<rparr> = \<lparr>world = ?W, samples = None\<rparr>\<lparr>samples := samples st\<rparr>"
    by simp
  also have "map_option (\<lambda>(r, s). (r, world s)) (sample G S n None (\<lparr>world = ?W, samples = None\<rparr>\<lparr>samples := samples st\<rparr>)) =
             map_option (\<lambda>(r, s). (r, world s)) (sample G S n None \<lparr>world = ?W, samples = None\<rparr>)"
    by (rule sample_world_forgets)
  finally show ?thesis
    by (simp add: option.map_comp comp_def split_def)
qed

lemma attempt_no_seed:
  "\<exists>ev. trace (snd (snd (attempt G S w))) = trace w @ ev \<and> seedings ev = []"
  by (auto simp: attempt_def Let_def log_event_def split: prod.splits)

lemma retries_no_seed:
  "\<exists>ev. trace (retries G S k w) = trace w @ ev \<and> seedings ev = []"
proof (induction k arbitrary: w)
  case 0
  show ?case by simp
next
  case (Suc k)
  obtain e1 where e1: "trace (snd (snd (attempt G S w))) = trace w @ e1" "seedings e1 = []"
    using attempt_no_seed[of G S w] by blast
  obtain e2 where e2: "trace (retries G S k (snd (snd (attempt G S w)))) = trace (snd (snd (attempt G S w))) @ e2"
    "seedings e2 = []"
    using Suc.IH[of "snd (snd (attempt G S w))"] by blast
  have "trace (retries G S (Suc k) w) = trace w @ (e1 @ e2)" "seedings (e1 @ e2) = []"
    using e1 e2 by simp_all
  then show ?case by blast
qed

lemma draw_no_seed:
  assumes "draw G S w = Some (x, w')"
  shows "\<exists>ev. trace w' = trace w @ ev \<and> seedings ev = []"
proof -
  from draw_returns_retries[OF assms] obtain k where
    k: "attempt G S (retries G S k w) = (x, True, w')" by auto
  obtain e1 where e1: "trace (retries G S k w) = trace w @ e1" "seedings e1 = []"
    using retries_no_seed[of G S k w] by blast
  obtain e2 where e2: "trace (snd (snd (attempt G S (retries G S k w)))) = trace (retries G S k w) @ e2"
    "seedings e2 = []"
    using attempt_no_seed[of G S "retries G S k w"] by blast
  have "trace w' = trace w @ (e1 @ e2)" "seedings (e1 @ e2) = []"
    using e1 e2 k by simp_all
  then show ?thesis by blast
qed

lemma loop_no_seed:
  "sample_loop G S i n st = Some (r, st') \<Longrightarrow>
   \<exists>ev. trace (world st') = trace (world st) @ ev \<and> seedings ev = []"
proof (induction G S i n st rule: sample_loop.induct)
  case (1 G S i n st)
  show ?case
  proof (cases "int i < n")
    case False
    with "1.prems" show ?thesis by (simp add: sample_loop_done)
  next
    case True
    with "1.prems" obtain x w1 where d: "draw G S (world st) = Some (x, w1)"
      by (auto simp: sample_loop_step split: option.splits)
    from draw_no_seed[OF d] obtain e1 where
      e1: "trace w1 = trace (world st) @ e1" "seedings e1 = []" by blast
    show ?thesis
    proof (cases "store i x (samples st)")
      case (Inl e)
      with "1.prems" True d have "st' = st\<lparr>world := w1\<rparr>"
        by (simp add: sample_loop_step)
      with e1 show ?thesis by simp
    next
      case (Inr b)
      have l: "sample_loop G S (Suc i) n \<lparr>world = w1, samples = Some b\<rparr> = Some (r, st')"
        using "1.prems" True d Inr by (simp add: sample_loop_step)
      from "1.IH"[OF True d refl Inr l] obtain e2 where
        "trace (world st') = trace w1 @ e2" "seedings e2 = []" by auto
      with e1 have "trace (world st') = trace (world st) @ (e1 @ e2)" "seedings (e1 @ e2) = []"
        by simp_all
      then show ?thesis by blast
    qed
  qed
qed

lemma sample_no_seed:
  assumes "sample G S n None st = Some (r, st')"
  shows "\<exists>ev. trace (world st') = trace (world st) @ ev \<and> seedings ev = []"
proof -
  from assms obtain first w1 where d: "draw G S (world st) = Some (first, w1)"
    by (cases "draw G S (world st)") (auto simp: sample_def)
  from draw_no_seed[OF d] obtain e1 where
    e1: "trace w1 = trace (world st) @ e1" "seedings e1 = []" by blast
  show ?thesis
  proof (cases "allocate n first")
    case (Inl e)
    with assms d have "st' = st\<lparr>world := w1\<rparr>" by (simp add: sample_def)
    with e1 show ?thesis by simp
  next
    case (Inr buf)
    show ?thesis
    proof (cases "store 0 first (Some buf)")
      case (Inl e)
      with assms d Inr have "st' = \<lparr>world = w1, samples = Some buf\<rparr>" by (simp add: sample_def)
      with e1 show ?thesis by simp
    next
      case b0: (Inr buf0)
      from assms d Inr b0 obtain r' where
        l: "sample_loop G S 1 n \<lparr>world = w1, samples = Some buf0\<rparr> = Some (r', st')"
        by (auto simp: sample_def split: option.splits sum.splits)
      from loop_no_seed[OF l] obtain e2 where
        "trace (world st') = trace w1 @ e2" "seedings e2 = []" by auto
      with e1 have "trace (world st') = trace (world st) @ (e1 @ e2)" "seedings (e1 @ e2) = []"
        by simp_all
      then show ?thesis by blast
    qed
  qed
qed

lemma seeded_observed:
  assumes "np_random_seed G seed = Inr g"
  shows "map_option (\<lambda>(res, s). (res, drop (length (trace (world st))) (trace (world s))))
           (sample G S n (Some seed) st) =
         map_option (\<lambda>(res, s). (res, trace (world s)))
           (sample G S n None \<lparr>world = \<lparr>rng = g, trace = [Seeded seed]\<rparr>, samples = None\<rparr>)"
proof -
  have "map_option (\<lambda>(res, s). (res, drop (length (trace (world st))) (trace (world s))))
           (sample G S n (Some seed) st) =
        map_option (\<lambda>(res, w). (res, drop (length (trace (world st))) (trace w)))
          (map_option (\<lambda>(r, s). (r, world s)) (sample G S n (Some seed) st))"
    by (simp add: option.map_comp comp_def split_def)
  also have "\<dots> = map_option (\<lambda>(res, s). (res, trace (world s)))
           (sample G S n None \<lparr>world = \<lparr>rng = g, trace = [Seeded seed]\<rparr>, samples = None\<rparr>)"
    unfolding sample_seeded_canonical[OF assms]
    by (simp add: option.map_comp comp_def split_def)
  finally show ?thesis .
qed

text \<open>
  Claim C9. Two calls \<^verbatim>\<open>sample(n, seed)\<close> with the same seed on the same sampler, from
  any two states, give the same outcome (the same buffer, or the same failure, or
  neither returns) and make the same outside calls. When the generator takes the
  seed, both calls leave the generator in the same state, and the calls of a batch
  start with the seeding and hold no other.
\<close>

theorem same_seed_same_batch:
  "map_option (\<lambda>(res, s). (res, drop (length (trace (world st1))) (trace (world s))))
     (sample G S n (Some seed) st1) =
   map_option (\<lambda>(res, s). (res, drop (length (trace (world st2))) (trace (world s))))
     (sample G S n (Some seed) st2) \<and>
   (np_random_seed G seed = Inr g \<and>
    sample G S n (Some seed) st1 = Some (res1, s1) \<and>
    sample G S n (Some seed) st2 = Some (res2, s2) \<longrightarrow>
      rng (world s1) = rng (world s2) \<and>
      (\<exists>calls. drop (length (trace (world st1))) (trace (world s1)) = Seeded seed # calls \<and>
               seedings calls = []))"
proof (intro conjI impI)
  show "map_option (\<lambda>(res, s). (res, drop (length (trace (world st1))) (trace (world s))))
     (sample G S n (Some seed) st1) =
   map_option (\<lambda>(res, s). (res, drop (length (trace (world st2))) (trace (world s))))
     (sample G S n (Some seed) st2)"
  proof (cases "np_random_seed G seed")
    case (Inl e)
    then show ?thesis by (simp add: sample_def)
  next
    case (Inr g')
    show ?thesis by (simp add: seeded_observed[OF Inr])
  qed
next
  assume a: "np_random_seed G seed = Inr g \<and>
    sample G S n (Some seed) st1 = Some (res1, s1) \<and>
    sample G S n (Some seed) st2 = Some (res2, s2)"
  let ?C = "sample G S n None \<lparr>world = \<lparr>rng = g, trace = [Seeded seed]\<rparr>, samples = None\<rparr>"
  from a have g: "np_random_seed G seed = Inr g" by simp
  from sample_seeded_canonical[OF g, of S n st1] a obtain r c where
    c: "?C = Some (r, c)" and w1: "world s1 = shift (trace (world st1)) (world c)"
    by (cases ?C) auto
  from sample_seeded_canonical[OF g, of S n st2] a c
  have w2: "world s2 = shift (trace (world st2)) (world c)" by auto
  from sample_no_seed[OF c] obtain ev where
    ev: "trace (world c) = [Seeded seed] @ ev" "seedings ev = []" by auto
  show "rng (world s1) = rng (world s2)" using w1 w2 by simp
  show "\<exists>calls. drop (length (trace (world st1))) (trace (world s1)) = Seeded seed # calls \<and>
               seedings calls = []"
    using w1 ev by simp
qed

theorem same_seed_same_batch_witness:
  "np_random_seed G_half 5 = Inr 5 \<and>
   sample G_half S_flat 2 (Some 5) (new_sampler (init 0)) =
     Some (Inr (Some (Buf1 [Some 5, Some 7])),
       \<lparr>world = \<lparr>rng = 9, trace = [Seeded 5,
           Proposed (Scalar 5), LogQ (Scalar 5), Uniform (Fin 1) (Fin (1 / 2)), LogP (Scalar 5),
           Proposed (Scalar 7), LogQ (Scalar 7), Uniform (Fin 1) (Fin (1 / 2)), LogP (Scalar 7)]\<rparr>,
        samples = Some (Buf1 [Some 5, Some 7])\<rparr>) \<and>
   sample G_half S_flat 2 (Some 5) \<lparr>world = \<lparr>rng = 3, trace = [Proposed (Scalar 9)]\<rparr>, samples = Some (Buf1 [Some 9])\<rparr> =
     Some (Inr (Some (Buf1 [Some 5, Some 7])),
       \<lparr>world = \<lparr>rng = 9, trace = [Proposed (Scalar 9), Seeded 5,
           Proposed (Scalar 5), LogQ (Scalar 5), Uniform (Fin 1) (Fin (1 / 2)), LogP (Scalar 5),
           Proposed (Scalar 7), LogQ (Scalar 7), Uniform (Fin 1) (Fin (1 / 2)), LogP (Scalar 7)]\<rparr>,
        samples = Some (Buf1 [Some 5, Some 7])\<rparr>) \<and>
   (\<exists>calls. drop (length (trace (world (new_sampler (init (0::nat))))))
              [Seeded 5,
               Proposed (Scalar 5), LogQ (Scalar 5), Uniform (Fin 1) (Fin (1 / 2)), LogP (Scalar 5),
               Proposed (Scalar 7), LogQ (Scalar 7), Uniform (Fin 1) (Fin (1 / 2)), LogP (Scalar 7)] =
            Seeded 5 # calls \<and> seedings calls = [])"
proof -
  have h1: "np_random_seed G_half 5 = Inr 5"
    by (simp add: G_half_def)
  have h2: "sample G_half S_flat 2 (Some 5) (new_sampler (init 0)) =
     Some (Inr (Some (Buf1 [Some 5, Some 7])),
       \<lparr>world = \<lparr>rng = 9, trace = [Seeded 5,
           Proposed (Scalar 5), LogQ (Scalar 5), Uniform (Fin 1) (Fin (1 / 2)), LogP (Scalar 5),
           Proposed (Scalar 7), LogQ (Scalar 7), Uniform (Fin 1) (Fin (1 / 2)), LogP (Scalar 7)]\<rparr>,
        samples = Some (Buf1 [Some 5, Some 7])\<rparr>)"
    by (simp add: sample_def new_sampler_def init_def h1 log_event_def draw_S_flat allocate_def
        np_empty1_def store_def sample_loop_step sample_loop_done replicate_two)
  have h3: "sample G_half S_flat 2 (Some 5) \<lparr>world = \<lparr>rng = 3, trace = [Proposed (Scalar 9)]\<rparr>, samples = Some (Buf1 [Some 9])\<rparr> =
     Some (Inr (Some (Buf1 [Some 5, Some 7])),
       \<lparr>world = \<lparr>rng = 9, trace = [Proposed (Scalar 9), Seeded 5,
           Proposed (Scalar 5), LogQ (Scalar 5), Uniform (Fin 1) (Fin (1 / 2)), LogP (Scalar 5),
           Proposed (Scalar 7), LogQ (Scalar 7), Uniform (Fin 1) (Fin (1 / 2)), LogP (Scalar 7)]\<rparr>,
        samples = Some (Buf1 [Some 5, Some 7])\<rparr>)"
    by (simp add: sample_def h1 log_event_def draw_S_flat allocate_def
        np_empty1_def store_def sample_loop_step sample_loop_done replicate_two)
  note th = same_seed_same_batch[where G = G_half and S = S_flat and n = 2 and seed = 5 and g = 5
      and ?st1.0 = "new_sampler (init 0)"
      and ?st2.0 = "\<lparr>world = \<lparr>rng = 3, trace = [Proposed (Scalar 9)]\<rparr>, samples = Some (Buf1 [Some 9])\<rparr>",
      THEN conjunct2, rule_format, OF conjI[OF h1 conjI[OF h2 h3]], THEN conjunct2]
  from th h1 h2 h3 show ?thesis by simp
qed

end
